theory Spec2Isabelle
  imports Complex_Main "HOL-Library.Char_ord" "HOL-Library.List_Lexorder" "HOL-Library.Product_Lexorder"
begin

section \<open>Python strings\<close>

text \<open>
  A Python \<^verbatim>\<open>str\<close> is modelled as a list of characters, each character standing for
  the code point of the same number (U+0000 .. U+00FF).  The classes below are the ones
  Python assigns to these code points (\<^verbatim>\<open>str.isspace\<close>, \<^verbatim>\<open>str.isupper\<close>,
  \<^verbatim>\<open>str.islower\<close>, and the \<^verbatim>\<open>\s\<close>, \<^verbatim>\<open>\d\<close>, \<^verbatim>\<open>\w\<close> classes of the
  \<^verbatim>\<open>re\<close> module on \<^verbatim>\<open>str\<close> patterns).  \<^verbatim>\<open>str.lower\<close> stays inside the range.
  \<^verbatim>\<open>str.upper\<close> does not: U+00DF becomes the two letters \<^verbatim>\<open>SS\<close>, U+00B5 becomes U+039C
  and U+00FF becomes U+0178.  So \<open>upper\<close> returns the list of the code points of the
  result, and \<open>code_points\<close> turns a string of the model into such a list for a
  comparison.
\<close>

definition cp :: "char \<Rightarrow> nat" where
  "cp c = of_char c"

definition is_space :: "char \<Rightarrow> bool" where
  "is_space c = ((9 \<le> cp c \<and> cp c \<le> 13) \<or> (28 \<le> cp c \<and> cp c \<le> 32) \<or> cp c = 133 \<or> cp c = 160)"

definition is_digit :: "char \<Rightarrow> bool" where
  "is_digit c = (48 \<le> cp c \<and> cp c \<le> 57)"

definition is_upper_char :: "char \<Rightarrow> bool" where
  "is_upper_char c = ((65 \<le> cp c \<and> cp c \<le> 90) \<or> (192 \<le> cp c \<and> cp c \<le> 222 \<and> cp c \<noteq> 215))"

definition is_lower_char :: "char \<Rightarrow> bool" where
  "is_lower_char c = ((97 \<le> cp c \<and> cp c \<le> 122) \<or> cp c = 170 \<or> cp c = 181 \<or> cp c = 186
     \<or> (223 \<le> cp c \<and> cp c \<le> 255 \<and> cp c \<noteq> 247))"

definition is_word :: "char \<Rightarrow> bool" where
  "is_word c = (is_digit c \<or> (65 \<le> cp c \<and> cp c \<le> 90) \<or> cp c = 95 \<or> (97 \<le> cp c \<and> cp c \<le> 122)
     \<or> cp c = 170 \<or> cp c = 178 \<or> cp c = 179 \<or> cp c = 181 \<or> cp c = 185 \<or> cp c = 186
     \<or> (188 \<le> cp c \<and> cp c \<le> 190)
     \<or> (192 \<le> cp c \<and> cp c \<le> 255 \<and> cp c \<noteq> 215 \<and> cp c \<noteq> 247))"

fun set_bit5 :: "bool \<Rightarrow> char \<Rightarrow> char" where
  "set_bit5 v (Char b0 b1 b2 b3 b4 b5 b6 b7) = Char b0 b1 b2 b3 b4 v b6 b7"

definition lower_char :: "char \<Rightarrow> char" where
  "lower_char c = (if is_upper_char c then set_bit5 True c else c)"

text \<open>
  The upper-case partner of a character inside the range, the character itself when it has
  none there.  The case-insensitive class test of the matcher uses it.
\<close>

definition upper_latin1 :: "char \<Rightarrow> char" where
  "upper_latin1 c = (if (97 \<le> cp c \<and> cp c \<le> 122) \<or> (224 \<le> cp c \<and> cp c \<le> 254 \<and> cp c \<noteq> 247)
                     then set_bit5 False c else c)"

text \<open>The code points of \<^verbatim>\<open>c.upper()\<close> for a one-character string \<^verbatim>\<open>c\<close>.\<close>

definition upper_char :: "char \<Rightarrow> nat list" where
  "upper_char c =
     (if cp c = 223 then [83, 83]
      else if cp c = 181 then [924]
      else if cp c = 255 then [376]
      else [cp (upper_latin1 c)])"

definition lower :: "string \<Rightarrow> string" where
  "lower s = map lower_char s"

definition upper :: "string \<Rightarrow> nat list" where
  "upper s = concat (map upper_char s)"

definition code_points :: "string \<Rightarrow> nat list" where
  "code_points s = map cp s"

text \<open>The string of a list of code points below 256.\<close>

definition str_of :: "nat list \<Rightarrow> string" where
  "str_of ns = map char_of ns"

text \<open>\<^verbatim>\<open>s.strip()\<close>: leading and trailing white space removed.\<close>

definition strip :: "string \<Rightarrow> string" where
  "strip s = rev (dropWhile is_space (rev (dropWhile is_space s)))"

text \<open>\<^verbatim>\<open>s.isupper()\<close>: at least one cased character and no lower-case one.\<close>

definition isupper :: "string \<Rightarrow> bool" where
  "isupper s = (list_ex is_upper_char s \<and> \<not> list_ex is_lower_char s)"

definition startswith :: "string \<Rightarrow> string \<Rightarrow> bool" where
  "startswith s p = (take (length p) s = p)"

definition endswith :: "string \<Rightarrow> string \<Rightarrow> bool" where
  "endswith s p = (length p \<le> length s \<and> drop (length s - length p) s = p)"

text \<open>\<^verbatim>\<open>sub in s\<close> for strings.\<close>

definition contains :: "string \<Rightarrow> string \<Rightarrow> bool" where
  "contains s sub = list_ex (\<lambda>i. take (length sub) (drop i s) = sub) [0..<Suc (length s)]"

section \<open>Regular expressions of the \<^verbatim>\<open>re\<close> module\<close>

text \<open>
  The patterns of the source are written as terms of \<open>rx\<close>.  \<open>rx_run\<close> lists the ways
  a pattern matches from a position, in the order in which a backtracking matcher tries
  them (an earlier alternative first, a greedy repetition longest first), so the head of
  the list is the match Python reports.  A state is the position reached and the groups
  captured (the latest binding of a group first).  A repetition runs its body only while
  the body consumes input, which bounds the number of rounds by the length of the rest of
  the text.
\<close>

datatype rx =
    Lit char
  | Cls "(char \<times> char) list"
  | Dot
  | Digit
  | Space
  | Word
  | Eps
  | Bol
  | Eol
  | Wb
  | Seq rx rx
  | Alt rx rx
  | Star rx
  | Grp nat rx

type_synonym caps = "(nat \<times> nat \<times> nat) list"
type_synonym mstate = "nat \<times> caps"

definition char_eq :: "bool \<Rightarrow> char \<Rightarrow> char \<Rightarrow> bool" where
  "char_eq ic a b = (if ic then lower_char a = lower_char b else a = b)"

definition in_ranges :: "(char \<times> char) list \<Rightarrow> char \<Rightarrow> bool" where
  "in_ranges rs c = list_ex (\<lambda>r. cp (fst r) \<le> cp c \<and> cp c \<le> cp (snd r)) rs"

definition cls_match :: "bool \<Rightarrow> (char \<times> char) list \<Rightarrow> char \<Rightarrow> bool" where
  "cls_match ic rs c =
     (if ic then in_ranges rs (lower_char c) \<or> in_ranges rs (upper_latin1 (lower_char c))
      else in_ranges rs c)"

definition step_if :: "string \<Rightarrow> (char \<Rightarrow> bool) \<Rightarrow> mstate \<Rightarrow> mstate list" where
  "step_if s P st = (if fst st < length s \<and> P (s ! fst st) then [(Suc (fst st), snd st)] else [])"

definition test_if :: "bool \<Rightarrow> mstate \<Rightarrow> mstate list" where
  "test_if b st = (if b then [st] else [])"

definition at_word_boundary :: "string \<Rightarrow> nat \<Rightarrow> bool" where
  "at_word_boundary s i =
     ((0 < i \<and> i \<le> length s \<and> is_word (s ! (i - 1))) \<noteq> (i < length s \<and> is_word (s ! i)))"

definition newline :: char where
  "newline = CHR 0x0A"

text \<open>\<^verbatim>\<open>$\<close> without MULTILINE: the end of the text, or just before a final newline.\<close>

definition at_end :: "string \<Rightarrow> nat \<Rightarrow> bool" where
  "at_end s i = (i = length s \<or> (Suc i = length s \<and> s ! i = newline))"

primrec star_iter :: "(mstate \<Rightarrow> mstate list) \<Rightarrow> nat \<Rightarrow> mstate \<Rightarrow> mstate list" where
  "star_iter f 0 st = [st]"
| "star_iter f (Suc n) st =
     concat (map (\<lambda>st'. if fst st < fst st' then star_iter f n st' else []) (f st)) @ [st]"

primrec rx_run :: "rx \<Rightarrow> bool \<Rightarrow> string \<Rightarrow> mstate \<Rightarrow> mstate list" where
  "rx_run (Lit c) ic s st = step_if s (\<lambda>d. char_eq ic d c) st"
| "rx_run (Cls rs) ic s st = step_if s (cls_match ic rs) st"
| "rx_run Dot ic s st = step_if s (\<lambda>d. d \<noteq> newline) st"
| "rx_run Digit ic s st = step_if s is_digit st"
| "rx_run Space ic s st = step_if s is_space st"
| "rx_run Word ic s st = step_if s is_word st"
| "rx_run Eps ic s st = [st]"
| "rx_run Bol ic s st = test_if (fst st = 0) st"
| "rx_run Eol ic s st = test_if (at_end s (fst st)) st"
| "rx_run Wb ic s st = test_if (at_word_boundary s (fst st)) st"
| "rx_run (Seq a b) ic s st = concat (map (rx_run b ic s) (rx_run a ic s st))"
| "rx_run (Alt a b) ic s st = rx_run a ic s st @ rx_run b ic s st"
| "rx_run (Star a) ic s st = star_iter (rx_run a ic s) (length s - fst st) st"
| "rx_run (Grp n a) ic s st =
     map (\<lambda>st'. (fst st', (n, fst st, fst st') # snd st')) (rx_run a ic s st)"

text \<open>Pattern notation: a literal text, a sequence, \<^verbatim>\<open>r+\<close>, \<^verbatim>\<open>r?\<close>, one character.\<close>

definition rx_seq :: "rx list \<Rightarrow> rx" where
  "rx_seq rs = foldr Seq rs Eps"

definition rx_str :: "string \<Rightarrow> rx" where
  "rx_str s = rx_seq (map Lit s)"

fun rx_alts :: "rx list \<Rightarrow> rx" where
  "rx_alts [] = Eps"
| "rx_alts [r] = r"
| "rx_alts (r # rs) = Alt r (rx_alts rs)"

definition Plus :: "rx \<Rightarrow> rx" where
  "Plus r = Seq r (Star r)"

definition Opt :: "rx \<Rightarrow> rx" where
  "Opt r = Alt r Eps"

definition Ch :: "char \<Rightarrow> char \<times> char" where
  "Ch c = (c, c)"

text \<open>\<^verbatim>\<open>r{n,}\<close> and \<^verbatim>\<open>r{n,m}\<close>.\<close>

definition rx_at_least :: "nat \<Rightarrow> rx \<Rightarrow> rx" where
  "rx_at_least n r = rx_seq (replicate n r @ [Star r])"

definition rx_between :: "nat \<Rightarrow> nat \<Rightarrow> rx \<Rightarrow> rx" where
  "rx_between n m r = rx_seq (replicate n r @ [foldr (\<lambda>_ acc. Opt (Seq r acc)) (replicate (m - n) ()) Eps])"

text \<open>
  A match object: where the match starts, where it ends, and its groups.
  \<^verbatim>\<open>re.match\<close> tries position 0 only; \<^verbatim>\<open>re.search\<close> tries every position from the
  left and keeps the first that matches.
\<close>

type_synonym match = "nat \<times> nat \<times> caps"

definition match_at :: "rx \<Rightarrow> bool \<Rightarrow> string \<Rightarrow> nat \<Rightarrow> bool \<Rightarrow> match option" where
  "match_at p ic s i nonempty =
     (case filter (\<lambda>st. \<not> nonempty \<or> i < fst st) (rx_run p ic s (i, [])) of
        [] \<Rightarrow> None
      | st # _ \<Rightarrow> Some (i, fst st, snd st))"

definition re_match :: "rx \<Rightarrow> bool \<Rightarrow> string \<Rightarrow> match option" where
  "re_match p ic s = match_at p ic s 0 False"

primrec search_from :: "rx \<Rightarrow> bool \<Rightarrow> string \<Rightarrow> nat \<Rightarrow> nat \<Rightarrow> bool \<Rightarrow> match option" where
  "search_from p ic s 0 i nonempty = None"
| "search_from p ic s (Suc n) i nonempty =
     (case match_at p ic s i nonempty of
        Some m \<Rightarrow> Some m
      | None \<Rightarrow> search_from p ic s n (Suc i) False)"

definition re_search :: "rx \<Rightarrow> bool \<Rightarrow> string \<Rightarrow> match option" where
  "re_search p ic s = search_from p ic s (Suc (length s)) 0 False"

definition matched :: "match option \<Rightarrow> bool" where
  "matched m = (m \<noteq> None)"

text \<open>\<^verbatim>\<open>m.group(0)\<close> and \<^verbatim>\<open>m.group(n)\<close> (\<open>None\<close> when the group took no part).\<close>

definition group0 :: "string \<Rightarrow> match \<Rightarrow> string" where
  "group0 s m = take (fst (snd m) - fst m) (drop (fst m) s)"

definition group :: "string \<Rightarrow> match \<Rightarrow> nat \<Rightarrow> string option" where
  "group s m n =
     (case map_of (snd (snd m)) n of
        None \<Rightarrow> None
      | Some se \<Rightarrow> Some (take (snd se - fst se) (drop (fst se) s)))"

text \<open>
  Truthiness of an optional string (\<^verbatim>\<open>if m.group(1):\<close>): \<open>None\<close> and the empty
  string are falsy.  \<open>the_str\<close> reads the string where it is truthy.
\<close>

definition truthy :: "string option \<Rightarrow> bool" where
  "truthy x = (case x of None \<Rightarrow> False | Some s \<Rightarrow> s \<noteq> [])"

definition the_str :: "string option \<Rightarrow> string" where
  "the_str x = (case x of None \<Rightarrow> [] | Some s \<Rightarrow> s)"

text \<open>
  \<^verbatim>\<open>re.findall\<close> for a pattern without groups: the texts of the matches found from
  left to right, none overlapping.  After an empty match the next one must not be empty
  at the same place.
\<close>

primrec findall_from :: "rx \<Rightarrow> bool \<Rightarrow> string \<Rightarrow> nat \<Rightarrow> nat \<Rightarrow> bool \<Rightarrow> string list" where
  "findall_from p ic s 0 i nonempty = []"
| "findall_from p ic s (Suc n) i nonempty =
     (case search_from p ic s (Suc (length s) - i) i nonempty of
        None \<Rightarrow> []
      | Some m \<Rightarrow> group0 s m # findall_from p ic s n (fst (snd m)) (fst (snd m) = fst m))"

definition re_findall :: "rx \<Rightarrow> bool \<Rightarrow> string \<Rightarrow> string list" where
  "re_findall p ic s = findall_from p ic s (Suc (Suc (2 * length s))) 0 False"

section \<open>The document tree\<close>

text \<open>
  A node of the JSON tree: a dictionary with \<^verbatim>\<open>name\<close>, \<^verbatim>\<open>text\<close>, \<^verbatim>\<open>path\<close> and
  \<^verbatim>\<open>children\<close> (a missing or null entry reads as the empty string or the empty list), or
  a value that is not a dictionary, which every walk skips
  (\<^verbatim>\<open>if not isinstance(node, dict): return\<close>).
\<close>

datatype node =
    Node (nname: string) (ntext: string) (npath: string) (nchildren: "node list")
  | NotDict

subsection \<open>Final\_study\_specific\_form.py: the form walk of the items pipeline\<close>

text \<open>\<^verbatim>\<open>get_text\<close>: the node's own stripped text, else the first non-empty text below it.\<close>

definition first_nonempty :: "string list \<Rightarrow> string" where
  "first_nonempty ts = (case filter (\<lambda>t. t \<noteq> []) ts of [] \<Rightarrow> [] | t # _ \<Rightarrow> t)"

fun get_text :: "node \<Rightarrow> string" where
  "get_text NotDict = []"
| "get_text (Node n t p cs) =
     (if strip t \<noteq> [] then strip t else first_nonempty (map get_text cs))"

text \<open>The patterns of \<^verbatim>\<open>is_valid_form_name\<close>, in the order of the source.\<close>

definition form_name_pattern :: rx where
  "form_name_pattern =
     Alt (rx_seq [Lit CHR ''['',
                  Grp 1 (rx_at_least 3 (Cls [(CHR ''A'', CHR ''Z''), (CHR ''0'', CHR ''9''), Ch CHR ''_'', Ch CHR ''-''])),
                  Lit CHR '']''])
         (rx_seq [Star Dot, Wb, Opt (Grp 2 (rx_str ''Non-'')), Cls [Ch CHR ''R'', Ch CHR ''r''],
                  rx_str ''epeating'', Wb, Star Dot])"

definition invalid_bracketed_patterns :: "rx list" where
  "invalid_bracketed_patterns =
     [rx_seq [Bol, Lit CHR ''L'', Plus Digit, Eol],
      rx_seq [Bol, Cls [(CHR ''A'', CHR ''Z'')], Plus Digit, Eol],
      rx_seq [Bol, Lit CHR ''A'', Plus Digit, Eol]]"

definition rx_role :: rx where
  "rx_role = rx_alts [rx_str ''Date'', rx_str ''Time'', rx_str ''Coordinator'', rx_str ''Designer'']"

definition exclusion_patterns :: "rx list" where
  "exclusion_patterns =
     [rx_seq [Bol, Grp 1 (Alt (rx_str ''CRF'') (rx_str ''Form'')), Plus Space,
              Grp 2 (rx_alts [rx_str ''Date'', rx_str ''Time'', rx_str ''Coordinator'', rx_str ''Designer'',
                              Seq (rx_str ''Note'') (Opt (Lit CHR ''s''))]),
              Star Dot],
      rx_seq [Bol, rx_between 1 4 Word, Plus Space, Grp 1 rx_role, Wb, Star Dot],
      rx_seq [Bol, Star Space, Grp 1 rx_role, Star Space, Lit CHR ''-'', Star Space,
              Opt (Grp 2 (rx_str ''Non-'')), Cls [Ch CHR ''R'', Ch CHR ''r''], rx_str ''epeating'', Star Dot]]"

definition is_valid_form_name :: "string \<Rightarrow> bool" where
  "is_valid_form_name txt =
     (if txt = [] then False
      else case re_search form_name_pattern True txt of
        None \<Rightarrow> False
      | Some m \<Rightarrow>
          if truthy (group txt m 1) then
            (let bracketed_content = the_str (group txt m 1)
             in if \<not> isupper bracketed_content then False
                else \<not> list_ex (\<lambda>p. matched (re_match p False bracketed_content)) invalid_bracketed_patterns)
          else if contains (lower txt) ''repeating'' then
            (if length txt < 10 \<or> 80 < length txt then False
             else \<not> list_ex (\<lambda>p. matched (re_match p True txt)) exclusion_patterns)
          else False)"

text \<open>The patterns of \<^verbatim>\<open>is_valid_form_label\<close>, each tried with \<^verbatim>\<open>re.match\<close>, ignoring case.\<close>

definition rx_item_design_notes :: "string \<Rightarrow> rx" where
  "rx_item_design_notes w =
     rx_seq [rx_str w, Star Space, rx_str ''item'', Star Space, rx_str ''design'', Star Space,
             rx_str ''note'', Opt (Lit CHR ''s''), Star Space, Opt (Lit CHR '':''), Eol]"

definition invalid_label_patterns :: "rx list" where
  "invalid_label_patterns =
     [rx_seq [Bol, Star Space, Lit CHR ''V'', Plus Digit, Star (Cls [(CHR ''A'', CHR ''Z'')]), Star Space, Eol],
      rx_seq [rx_str ''Design'', Star Space, rx_str ''Note'', Opt (Lit CHR ''s''), Star Space,
              Opt (Lit CHR '':''), Eol],
      rx_item_design_notes ''Oracle'',
      rx_item_design_notes ''General'',
      rx_seq [Bol, Star Space, rx_str ''Non-Visit'', Star Space, rx_str ''Related'', Star Space, Eol],
      rx_seq [Bol, rx_str ''Data from'', Star Dot],
      rx_seq [Bol, rx_str ''Hidden item'', Star Dot],
      rx_seq [Bol, rx_str ''The item'', Star Dot],
      rx_seq [Bol, Plus Digit, Plus Space],
      rx_seq [Star Dot, Lit CHR ''|'', Lit CHR ''A'', Plus Digit, Lit CHR ''|'', Star Dot],
      rx_seq [Bol, Star Space, Opt (Grp 1 (rx_str ''Non-'')), Cls [Ch CHR ''R'', Ch CHR ''r''],
              rx_str ''epeating'', Opt (Grp 2 (Seq (Plus Space) (rx_str ''form''))), Star Space, Eol]]"

definition is_valid_form_label :: "string \<Rightarrow> bool" where
  "is_valid_form_label txt =
     (if txt = [] \<or> length txt < 3 \<or> 100 < length txt then False
      else \<not> list_ex (\<lambda>p. matched (re_match p True txt)) invalid_label_patterns)"

text \<open>
  \<^verbatim>\<open>extract_forms_cleaned\<close>.  \<^verbatim>\<open>results\<close> and \<^verbatim>\<open>seen_forms\<close> are shared by every
  H1 section; the walk threads them as a state.
\<close>

record form_base =
  Form_Label :: string
  Form_Name :: string

record form_rec = form_base +
  H1_Text :: string
  Form_Node :: node
  Parent_H1_Node :: node

record forms_state =
  results :: "form_rec list"
  seen_forms :: "(string \<times> string) set"

text \<open>\<^verbatim>\<open>current_label if current_label else h1_text\<close>: \<open>None\<close> and the empty string are falsy.\<close>

definition label_or :: "string option \<Rightarrow> string \<Rightarrow> string" where
  "label_or current_label h1_text = (if truthy current_label then the_str current_label else h1_text)"

definition record_form :: "string \<Rightarrow> node \<Rightarrow> node \<Rightarrow> string option \<Rightarrow> string \<Rightarrow> forms_state \<Rightarrow> forms_state" where
  "record_form h1_text h1_node nd current_label node_text st =
     (let form_name = node_text;
          form_label = label_or current_label h1_text;
          form_key = (form_label, form_name)
      in if form_key \<notin> seen_forms st
         then st\<lparr>results := results st @
                   [\<lparr>Form_Label = form_label, Form_Name = form_name, H1_Text = h1_text,
                     Form_Node = nd, Parent_H1_Node = h1_node\<rparr>],
                 seen_forms := insert form_key (seen_forms st)\<rparr>
         else st)"

fun find_forms_in_node :: "string \<Rightarrow> node \<Rightarrow> string option \<Rightarrow> node \<Rightarrow> forms_state \<Rightarrow> forms_state" where
  "find_forms_in_node h1_text h1_node current_label NotDict st = st"
| "find_forms_in_node h1_text h1_node current_label (Node n t p cs) st =
     (let node_text = get_text (Node n t p cs);
          current_label' =
            (if startswith n ''H2'' \<and> is_valid_form_label node_text \<and> \<not> is_valid_form_name node_text
             then Some node_text else current_label);
          st' = (if is_valid_form_name node_text
                 then record_form h1_text h1_node (Node n t p cs) current_label' node_text st
                 else st)
      in fold (\<lambda>child s. find_forms_in_node h1_text h1_node current_label' child s) cs st')"

definition process_h1_section :: "node \<Rightarrow> forms_state \<Rightarrow> forms_state" where
  "process_h1_section h1_node st =
     (let h1_text = (if \<not> is_valid_form_label (get_text h1_node) then ''Unknown Section''
                     else get_text h1_node)
      in find_forms_in_node h1_text h1_node None h1_node st)"

fun find_h1_sections :: "node \<Rightarrow> forms_state \<Rightarrow> forms_state" where
  "find_h1_sections NotDict st = st"
| "find_h1_sections (Node n t p cs) st =
     fold (\<lambda>child s. find_h1_sections child s) cs
       (if startswith n ''H1'' then process_h1_section (Node n t p cs) st else st)"

definition extract_forms_cleaned :: "node \<Rightarrow> form_rec list" where
  "extract_forms_cleaned data = results (find_h1_sections data \<lparr>results = [], seen_forms = {}\<rparr>)"

definition pair_key :: "'a form_base_scheme \<Rightarrow> string \<times> string" where
  "pair_key f = (Form_Label f, Form_Name f)"

subsection \<open>form\_extractor.py: the form table of the schedule pipeline\<close>

text \<open>Decimal numerals: \<^verbatim>\<open>str(n)\<close> and \<^verbatim>\<open>int(s)\<close> on a run of digits.\<close>

definition digit_char :: "nat \<Rightarrow> char" where
  "digit_char d = ''0123456789'' ! d"

fun str_nat :: "nat \<Rightarrow> string" where
  "str_nat n = (if n < 10 then [digit_char n] else str_nat (n div 10) @ [digit_char (n mod 10)])"

declare str_nat.simps [simp del]

definition int_of_digits :: "string \<Rightarrow> nat" where
  "int_of_digits s = foldl (\<lambda>acc c. 10 * acc + (cp c - 48)) 0 s"

text \<open>\<^verbatim>\<open>sep.join(xs)\<close>.\<close>

fun join :: "string \<Rightarrow> string list \<Rightarrow> string" where
  "join sep [] = []"
| "join sep [x] = x"
| "join sep (x # xs) = x @ sep @ join sep xs"

text \<open>
  The configuration keys the form walk reads, with the defaults of the source
  (\<^verbatim>\<open>config.get(key, default)\<close>).
\<close>

record fe_config =
  visit_patterns :: "rx list"
  ignore_patterns :: "rx list"
  valid_brackets :: rx
  valid_repeating :: rx
  invalid_patterns :: "rx list"

definition default_fe_config :: fe_config where
  "default_fe_config =
     \<lparr>visit_patterns =
        [rx_seq [Wb, Lit CHR ''V'', Plus Digit, Star (Cls [(CHR ''A'', CHR ''Z'')]),
                 Opt (Seq (Lit CHR ''-'') (Plus Digit)), Wb]],
      ignore_patterns = [],
      valid_brackets =
        rx_seq [Lit CHR ''['',
                Grp 1 (rx_at_least 3 (Cls [(CHR ''A'', CHR ''Z''), (CHR ''0'', CHR ''9''), Ch CHR ''_'', Ch CHR ''-''])),
                Lit CHR '']''],
      valid_repeating =
        rx_seq [Star Dot, Wb, Opt (Grp 2 (rx_str ''Non-'')), Cls [Ch CHR ''R'', Ch CHR ''r''],
                rx_str ''epeating'', Wb, Star Dot],
      invalid_patterns = []\<rparr>"

text \<open>\<^verbatim>\<open>get_text\<close> of this module: the node's own text, stripped.\<close>

definition fe_get_text :: "node \<Rightarrow> string" where
  "fe_get_text nd = (case nd of NotDict \<Rightarrow> [] | Node n t p cs \<Rightarrow> strip t)"

definition fe_is_valid_form_name :: "string \<Rightarrow> fe_config \<Rightarrow> bool" where
  "fe_is_valid_form_name txt config =
     (if txt = [] then False
      else case re_search (Alt (valid_brackets config) (valid_repeating config)) True txt of
        None \<Rightarrow> False
      | Some m \<Rightarrow>
          if truthy (group txt m 1) then isupper (the_str (group txt m 1))
          else if length txt < 10 \<or> 80 < length txt then False
          else \<not> list_ex (\<lambda>p. matched (re_match p True txt)) (invalid_patterns config))"

definition fe_invalid_label_patterns :: "rx list" where
  "fe_invalid_label_patterns =
     [rx_seq [Bol, Star Space, Lit CHR ''V'', Plus Digit, Star (Cls [(CHR ''A'', CHR ''Z'')]), Star Space, Eol],
      rx_seq [rx_str ''Design'', Star Space, rx_str ''Note'', Opt (Lit CHR ''s''), Star Space,
              Opt (Lit CHR '':''), Eol],
      rx_item_design_notes ''Oracle'',
      rx_item_design_notes ''General'',
      rx_seq [Bol, Star Space, rx_str ''Non-Visit'', Star Space, rx_str ''Related'', Star Space, Eol],
      rx_seq [Bol, rx_str ''Data from'', Star Dot],
      rx_seq [Bol, rx_str ''Hidden item'', Star Dot],
      rx_seq [Bol, Plus Digit, Plus Space],
      rx_seq [Bol, Star Space, Opt (Grp 1 (rx_str ''Non-'')), Cls [Ch CHR ''R'', Ch CHR ''r''],
              rx_str ''epeating'', Opt (Grp 2 (Seq (Plus Space) (rx_str ''form''))), Star Space, Eol]]"

definition fe_is_valid_form_label :: "string \<Rightarrow> bool" where
  "fe_is_valid_form_label txt =
     (if txt = [] \<or> length txt < 3 \<or> 100 < length txt then False
      else \<not> list_ex (\<lambda>p. matched (re_match p True txt)) fe_invalid_label_patterns)"

text \<open>
  \<^verbatim>\<open>extract_visit_strings\<close> and \<^verbatim>\<open>deep_search_visits\<close> build a Python set of
  strings.  The model lists the strings found, in document order; the set is the set of
  the list.  (Patterns are taken without groups, so that \<^verbatim>\<open>findall\<close> yields the
  matched texts.)
\<close>

definition extract_visit_strings :: "string \<Rightarrow> rx list \<Rightarrow> string list" where
  "extract_visit_strings txt patterns = concat (map (\<lambda>p. re_findall p True txt) patterns)"

fun deep_search_visits :: "node \<Rightarrow> rx list \<Rightarrow> string list" where
  "deep_search_visits NotDict patterns = []"
| "deep_search_visits (Node n t p cs) patterns =
     extract_visit_strings (fe_get_text (Node n t p cs)) patterns
     @ concat (map (\<lambda>child. deep_search_visits child patterns) cs)"

text \<open>
  The sort key of the visits string: the first run of digits as a number (9999 when
  there is none), then the text itself.  The key is injective, so the sorted list does
  not depend on the order in which the set is iterated.
\<close>

definition visit_sort_key :: "string \<Rightarrow> nat \<times> string" where
  "visit_sort_key x =
     (case re_search (Plus Digit) False x of
        None \<Rightarrow> (9999, x)
      | Some m \<Rightarrow> (int_of_digits (group0 x m), x))"

definition visits_string :: "string list \<Rightarrow> string" where
  "visits_string form_visits = join '', '' (sort_key visit_sort_key (remdups form_visits))"

text \<open>
  A row of the forms table.  The columns Source, Dynamic Trigger, Trigger Details and
  Required are computed from the node and its section and play no part in the walk; the
  model takes their computation as the parameter \<open>describe\<close> (section node, form node).
\<close>

record form_details =
  Source :: string
  Dynamic_Trigger :: string
  Trigger_Details :: string
  Required :: string

record form_row = form_base +
  Visits :: string
  Details :: form_details

record fe_state =
  fe_results :: "form_row list"
  fe_seen_forms :: "(string \<times> string \<times> string) set"

definition triple_key :: "form_row \<Rightarrow> string \<times> string \<times> string" where
  "triple_key f = (Form_Label f, Form_Name f, Visits f)"

definition fe_record_form ::
  "fe_config \<Rightarrow> (node \<Rightarrow> node \<Rightarrow> form_details) \<Rightarrow> string \<Rightarrow> node \<Rightarrow> string list \<Rightarrow> string option
     \<Rightarrow> node \<Rightarrow> fe_state \<Rightarrow> fe_state" where
  "fe_record_form config describe h1_text h1_node section_visits current_label nd st =
     (let form_name = fe_get_text nd;
          form_label = label_or current_label h1_text;
          form_visits0 = deep_search_visits nd (visit_patterns config);
          form_visits = (if form_visits0 = [] then section_visits else form_visits0);
          visits_str = visits_string form_visits;
          form_key = (form_label, form_name, visits_str)
      in if form_key \<notin> fe_seen_forms st
         then st\<lparr>fe_results := fe_results st @
                   [\<lparr>Form_Label = form_label, Form_Name = form_name, Visits = visits_str,
                     Details = describe h1_node nd\<rparr>],
                 fe_seen_forms := insert form_key (fe_seen_forms st)\<rparr>
         else st)"

text \<open>
  What \<^verbatim>\<open>find_forms_in_node\<close> does at one node before it descends: the label it
  passes down and the state after the node, or \<open>None\<close> where the source returns at an
  ignored form name without visiting the children.
\<close>

definition fe_visit_node ::
  "fe_config \<Rightarrow> (node \<Rightarrow> node \<Rightarrow> form_details) \<Rightarrow> string \<Rightarrow> node \<Rightarrow> string list \<Rightarrow> string option
     \<Rightarrow> node \<Rightarrow> fe_state \<Rightarrow> (string option \<times> fe_state) option" where
  "fe_visit_node config describe h1_text h1_node section_visits current_label nd st =
     (let node_name = nname nd;
          node_text = fe_get_text nd;
          current_label' =
            (if startswith node_name ''H2'' \<and> fe_is_valid_form_label node_text
                \<and> \<not> fe_is_valid_form_name node_text config
             then Some node_text else current_label)
      in if fe_is_valid_form_name node_text config then
           (if list_ex (\<lambda>pat. matched (re_search pat True node_text)) (ignore_patterns config)
            then None
            else Some (current_label',
                       fe_record_form config describe h1_text h1_node section_visits current_label' nd st))
         else Some (current_label', st))"

fun fe_find_forms_in_node ::
  "fe_config \<Rightarrow> (node \<Rightarrow> node \<Rightarrow> form_details) \<Rightarrow> string \<Rightarrow> node \<Rightarrow> string list \<Rightarrow> string option
     \<Rightarrow> node \<Rightarrow> fe_state \<Rightarrow> fe_state" where
  "fe_find_forms_in_node config describe h1_text h1_node section_visits current_label NotDict st = st"
| "fe_find_forms_in_node config describe h1_text h1_node section_visits current_label (Node n t p cs) st =
     (case fe_visit_node config describe h1_text h1_node section_visits current_label (Node n t p cs) st of
        None \<Rightarrow> st
      | Some r \<Rightarrow>
          fold (\<lambda>child s. fe_find_forms_in_node config describe h1_text h1_node section_visits (fst r) child s)
            cs (snd r))"

fun gather_h1_sections :: "node \<Rightarrow> node list" where
  "gather_h1_sections NotDict = []"
| "gather_h1_sections (Node n t p cs) =
     (if startswith n ''H1'' then [Node n t p cs] else []) @ concat (map gather_h1_sections cs)"

definition fe_process_h1 ::
  "fe_config \<Rightarrow> (node \<Rightarrow> node \<Rightarrow> form_details) \<Rightarrow> node \<Rightarrow> fe_state \<Rightarrow> fe_state" where
  "fe_process_h1 config describe h1_node st =
     (let h1_text = (if \<not> fe_is_valid_form_label (fe_get_text h1_node) then ''Unknown Section''
                     else fe_get_text h1_node);
          section_visits = deep_search_visits h1_node (visit_patterns config)
      in fe_find_forms_in_node config describe h1_text h1_node section_visits None h1_node st)"

definition extract_forms_with_corrections ::
  "(node \<Rightarrow> node \<Rightarrow> form_details) \<Rightarrow> node \<Rightarrow> fe_config \<Rightarrow> form_row list" where
  "extract_forms_with_corrections describe data config =
     fe_results (fold (\<lambda>h1_node st. fe_process_h1 config describe h1_node st) (gather_h1_sections data)
                   \<lparr>fe_results = [], fe_seen_forms = {}\<rparr>)"

subsection \<open>Final\_study\_specific\_form.py: items, repeating groups and rows\<close>

text \<open>
  An entry of \<^verbatim>\<open>items_data\<close>.  The option cell is \<open>None\<close> for the placeholder entry of a
  form without items.  \<^verbatim>\<open>assign_item_order\<close> adds the key \<^verbatim>\<open>Item_Order\<close>.
\<close>

record item =
  Item_Group :: string
  Item_Name :: string
  Option_TD_Node :: "node option"

record ordered_item = item +
  Item_Order :: nat

definition item_key :: "'a item_scheme \<Rightarrow> string \<times> string" where
  "item_key it = (Item_Name it, Item_Group it)"

text \<open>
  \<^verbatim>\<open>extract_items_from_form\<close>.  The scan of the table rows (which fills
  \<^verbatim>\<open>items_data\<close>) is the parameter \<open>scan\<close>; the function ends with the loop that keeps the
  first entry of every key (Item Name, Item Group).
\<close>

definition dedup_step :: "item \<Rightarrow> item list \<times> (string \<times> string) set \<Rightarrow> item list \<times> (string \<times> string) set" where
  "dedup_step it st =
     (if item_key it \<notin> snd st then (fst st @ [it], insert (item_key it) (snd st)) else st)"

definition extract_items_from_form :: "(node \<Rightarrow> item list) \<Rightarrow> node \<Rightarrow> item list" where
  "extract_items_from_form scan form_node = fst (fold dedup_step (scan form_node) ([], {}))"

text \<open>\<^verbatim>\<open>assign_item_order\<close>: \<^verbatim>\<open>enumerate(items, start=1)\<close>.\<close>

definition assign_item_order :: "item list \<Rightarrow> ordered_item list" where
  "assign_item_order items =
     map (\<lambda>(idx, it). \<lparr>Item_Group = Item_Group it, Item_Name = Item_Name it,
                       Option_TD_Node = Option_TD_Node it, Item_Order = idx\<rparr>)
       (zip [1..<Suc (length items)] items)"

text \<open>
  \<^verbatim>\<open>analyze_item_groups_per_form\<close>.  The \<^verbatim>\<open>Counter\<close> is the function that counts a
  group in the list of stripped groups; a key is in the counter when its count is positive.
\<close>

definition item_groups_of :: "'a item_scheme list \<Rightarrow> string list" where
  "item_groups_of items =
     map (\<lambda>it. strip (Item_Group it))
       (filter (\<lambda>it. strip (Item_Group it) \<noteq> [] \<and> strip (Item_Group it) \<noteq> ''NaN'') items)"

definition analyze_item_groups_per_form :: "'a item_scheme list \<Rightarrow> (string \<Rightarrow> nat) \<times> string set" where
  "analyze_item_groups_per_form items =
     (let item_groups = item_groups_of items;
          item_group_counts = count_list item_groups;
          repeating_groups = {g \<in> set item_groups. 1 < item_group_counts g}
      in (item_group_counts, repeating_groups))"

definition get_item_group_repeating_flag :: "string \<Rightarrow> string set \<Rightarrow> string" where
  "get_item_group_repeating_flag item_group repeating_groups =
     (if item_group = [] \<or> item_group = ''NaN'' \<or> strip item_group = [] then ''N''
      else if item_group \<in> repeating_groups then ''Y'' else ''N'')"

definition get_repeat_maximum :: "string \<Rightarrow> string \<Rightarrow> (string \<Rightarrow> nat) \<Rightarrow> nat" where
  "get_repeat_maximum item_group item_group_repeating_flag item_group_counts =
     (if item_group_repeating_flag = ''Y'' \<and> 0 < item_group_counts item_group
      then item_group_counts item_group else 50)"

text \<open>\<^verbatim>\<open>item.get("Item Group", "") or 'NaN'\<close>.\<close>

definition item_group_value :: "'a item_scheme \<Rightarrow> string" where
  "item_group_value it = (if Item_Group it = [] then ''NaN'' else Item_Group it)"

text \<open>The two columns the loop over the items of a form computes for the item \<open>it\<close>.\<close>

definition repeating_flag_of :: "'a item_scheme list \<Rightarrow> 'a item_scheme \<Rightarrow> string" where
  "repeating_flag_of items it =
     get_item_group_repeating_flag (item_group_value it) (snd (analyze_item_groups_per_form items))"

definition repeat_maximum_of :: "'a item_scheme list \<Rightarrow> 'a item_scheme \<Rightarrow> nat" where
  "repeat_maximum_of items it =
     get_repeat_maximum (item_group_value it) (repeating_flag_of items it)
       (fst (analyze_item_groups_per_form items))"

text \<open>How many items of the list carry the group of \<open>it\<close>.\<close>

definition group_size :: "'a item_scheme list \<Rightarrow> 'a item_scheme \<Rightarrow> nat" where
  "group_size items it = length (filter (\<lambda>j. Item_Group j = Item_Group it) items)"

text \<open>
  The helpers that read the option cell.  Each returns at once on a missing cell or an
  empty content; what it computes otherwise from the cell is a parameter (\<open>cell_rules\<close>).
\<close>

record cell_rules =
  lbody_values :: "node \<Rightarrow> string"
  data_type_of :: "node \<Rightarrow> string \<Rightarrow> string"
  field_length_of :: "string \<Rightarrow> string"
  precision_of :: "string \<Rightarrow> string"
  number_range_of :: "string \<Rightarrow> string"

definition get_all_lbody_values :: "cell_rules \<Rightarrow> node option \<Rightarrow> string" where
  "get_all_lbody_values rules option_td_node =
     (case option_td_node of None \<Rightarrow> [] | Some nd \<Rightarrow> lbody_values rules nd)"

definition determine_data_type :: "cell_rules \<Rightarrow> node option \<Rightarrow> string \<Rightarrow> string" where
  "determine_data_type rules option_td_node codelist_content =
     (case option_td_node of None \<Rightarrow> ''Text'' | Some nd \<Rightarrow> data_type_of rules nd (strip codelist_content))"

definition calculate_field_length :: "cell_rules \<Rightarrow> string \<Rightarrow> string" where
  "calculate_field_length rules codelist_content =
     (if codelist_content = [] then [] else field_length_of rules (strip codelist_content))"

definition calculate_precision :: "cell_rules \<Rightarrow> string \<Rightarrow> string" where
  "calculate_precision rules codelist_content =
     (if codelist_content = [] then [] else precision_of rules (strip codelist_content))"

definition extract_number_range :: "cell_rules \<Rightarrow> string \<Rightarrow> string" where
  "extract_number_range rules codelist_content =
     (if codelist_content = [] then [] else number_range_of rules (strip codelist_content))"

definition check_query_future_date :: "string \<Rightarrow> string" where
  "check_query_future_date data_type = (if data_type = ''Date/Time'' then ''Y'' else [])"

text \<open>\<^verbatim>\<open>check_required_field(item_name)\<close>, called with the item name only.\<close>

definition check_required_field :: "string \<Rightarrow> string" where
  "check_required_field item_name =
     (if item_name = [] then ''N''
      else if startswith (strip item_name) ''*'' then ''Y'' else ''N'')"

text \<open>A row of the Study Specific Forms sheet (the columns the loop fills).\<close>

record ss_row = form_base +
  Row_Item_Group :: string
  Item_group_Repeating :: string
  Repeat_Maximum :: nat
  Row_Item_Order :: nat
  Item_Label :: string
  Data_type :: string
  Field_Length :: string
  Precision :: string
  Codelist :: string
  Number_Range :: string
  Query_Future_Date :: string
  Row_Required :: string
  Open_Query :: string

definition item_row :: "cell_rules \<Rightarrow> form_rec \<Rightarrow> ordered_item list \<Rightarrow> ordered_item \<Rightarrow> ss_row" where
  "item_row rules form items it =
     (let option_node = Option_TD_Node it;
          item_name = Item_Name it;
          codelist_content = get_all_lbody_values rules option_node;
          data_type = determine_data_type rules option_node codelist_content;
          is_required = check_required_field item_name
      in \<lparr>Form_Label = Form_Label form,
          Form_Name = Form_Name form,
          Row_Item_Group = item_group_value it,
          Item_group_Repeating = repeating_flag_of items it,
          Repeat_Maximum = repeat_maximum_of items it,
          Row_Item_Order = Item_Order it,
          Item_Label = item_name,
          Data_type = data_type,
          Field_Length = (if data_type = ''Text'' \<or> data_type = ''Label''
                          then calculate_field_length rules codelist_content else []),
          Precision = (if data_type = ''Label'' then calculate_precision rules codelist_content else []),
          Codelist = codelist_content,
          Number_Range = (if data_type = ''Label'' then extract_number_range rules codelist_content else []),
          Query_Future_Date = check_query_future_date data_type,
          Row_Required = is_required,
          Open_Query = (if is_required = ''Y'' then ''Form,Item'' else [])\<rparr>)"

text \<open>
  The loop over the extracted forms, as \<^verbatim>\<open>process_clinical_forms\<close> and
  \<^verbatim>\<open>prepare_study_specific_forms_rows\<close> both run it: a form without items gets one
  placeholder entry before the items are numbered.
\<close>

definition placeholder_item :: item where
  "placeholder_item = \<lparr>Item_Group = [], Item_Name = [], Option_TD_Node = None\<rparr>"

definition form_item_rows :: "cell_rules \<Rightarrow> (node \<Rightarrow> item list) \<Rightarrow> form_rec \<Rightarrow> ss_row list" where
  "form_item_rows rules scan form =
     (let items0 = extract_items_from_form scan (Form_Node form);
          items1 = (if items0 = [] then items0 @ [placeholder_item] else items0);
          items = assign_item_order items1
      in map (item_row rules form items) items)"

definition prepare_study_specific_forms_rows :: "cell_rules \<Rightarrow> (node \<Rightarrow> item list) \<Rightarrow> node \<Rightarrow> ss_row list" where
  "prepare_study_specific_forms_rows rules scan data =
     concat (map (form_item_rows rules scan) (extract_forms_cleaned data))"

text \<open>The row the claim describes for a form without items.\<close>

definition placeholder_row :: "form_rec \<Rightarrow> ss_row" where
  "placeholder_row form =
     \<lparr>Form_Label = Form_Label form, Form_Name = Form_Name form,
      Row_Item_Group = ''NaN'', Item_group_Repeating = ''N'', Repeat_Maximum = 50,
      Row_Item_Order = 1, Item_Label = [], Data_type = ''Text'', Field_Length = [],
      Precision = [], Codelist = [], Number_Range = [], Query_Future_Date = [],
      Row_Required = ''N'', Open_Query = []\<rparr>"

text \<open>Example data used by the closed instances below.\<close>

definition example_forms_tree :: node where
  "example_forms_tree =
     Node ''Document'' [] []
       [Node ''H1'' ''Section One'' []
          [Node ''H2'' ''Demographics'' []
             [Node ''P'' ''[DEMOG]'' [] [],
              Node ''P'' ''[DEMOG]'' [] [Node ''P'' ''V1'' [] []]]]]"

definition example_nan_items :: "item list" where
  "example_nan_items =
     [\<lparr>Item_Group = ''NaN'', Item_Name = ''Age'', Option_TD_Node = None\<rparr>,
      \<lparr>Item_Group = ''NaN'', Item_Name = ''Sex'', Option_TD_Node = None\<rparr>]"

definition example_group_items :: "item list" where
  "example_group_items =
     [\<lparr>Item_Group = ''Vitals'', Item_Name = ''Pulse'', Option_TD_Node = None\<rparr>,
      \<lparr>Item_Group = ''Vitals'', Item_Name = ''Weight'', Option_TD_Node = None\<rparr>,
      \<lparr>Item_Group = ''Notes'', Item_Name = ''Comment'', Option_TD_Node = None\<rparr>]"

definition example_visits_tree :: node where
  "example_visits_tree =
     Node ''Document'' [] []
       [Node ''H1'' ''Section One'' []
          [Node ''H2'' ''Demographics'' []
             [Node ''P'' ''[DEMOG]'' [] [Node ''P'' ''V2, V1'' [] []],
              Node ''P'' ''[DEMOG]'' [] [Node ''P'' ''V1'' [] [], Node ''P'' ''V2'' [] []],
              Node ''P'' ''[DEMOG]'' [] [Node ''P'' ''V3'' [] []]]]]"

definition example_describe :: "node \<Rightarrow> node \<Rightarrow> form_details" where
  "example_describe h1_node nd =
     \<lparr>Source = ''Library'', Dynamic_Trigger = ''No'', Trigger_Details = [], Required = ''No''\<rparr>"

definition example_scan :: "node \<Rightarrow> item list" where
  "example_scan form_node =
     [\<lparr>Item_Group = ''Vitals'', Item_Name = ''Pulse'', Option_TD_Node = None\<rparr>,
      \<lparr>Item_Group = ''Vitals'', Item_Name = ''Pulse'', Option_TD_Node = Some form_node\<rparr>,
      \<lparr>Item_Group = ''Notes'', Item_Name = ''Pulse'', Option_TD_Node = None\<rparr>]"

definition example_rules :: cell_rules where
  "example_rules =
     \<lparr>lbody_values = (\<lambda>nd. []), data_type_of = (\<lambda>nd content. ''Text''),
      field_length_of = (\<lambda>content. []), precision_of = (\<lambda>content. ''0''),
      number_range_of = (\<lambda>content. [])\<rparr>"

subsection \<open>Exceptions\<close>

text \<open>The exceptions the modelled code can raise; a raising call returns \<open>Inl\<close>.\<close>

datatype py_error = ValueError | AttributeError | ZeroDivisionError | OSError

fun map_err :: "('a \<Rightarrow> 'e + 'b) \<Rightarrow> 'a list \<Rightarrow> 'e + 'b list" where
  "map_err f [] = Inr []"
| "map_err f (x # xs) =
     (case f x of
        Inl e \<Rightarrow> Inl e
      | Inr y \<Rightarrow> (case map_err f xs of Inl e \<Rightarrow> Inl e | Inr ys \<Rightarrow> Inr (y # ys)))"

fun fold_err :: "('a \<Rightarrow> 's \<Rightarrow> 'e + 's) \<Rightarrow> 'a list \<Rightarrow> 's \<Rightarrow> 'e + 's" where
  "fold_err f [] s = Inr s"
| "fold_err f (x # xs) s = (case f x s of Inl e \<Rightarrow> Inl e | Inr s' \<Rightarrow> fold_err f xs s')"

subsection \<open>event\_grouping.py: visit names\<close>

text \<open>
  The keys of \<^verbatim>\<open>visit_normalization\<close>, with the defaults of the source.  The pattern
  must have two groups (\<^verbatim>\<open>base, suffix = m.groups()\<close>); \<open>rx_groups\<close> counts them.
  The special-case list holds strings of the model, so an upper-cased text is in the list
  when its code points are those of an entry, and it is then a string of the model.
\<close>

primrec rx_groups :: "rx \<Rightarrow> nat" where
  "rx_groups (Lit c) = 0"
| "rx_groups (Cls rs) = 0"
| "rx_groups Dot = 0"
| "rx_groups Digit = 0"
| "rx_groups Space = 0"
| "rx_groups Word = 0"
| "rx_groups Eps = 0"
| "rx_groups Bol = 0"
| "rx_groups Eol = 0"
| "rx_groups Wb = 0"
| "rx_groups (Seq a b) = rx_groups a + rx_groups b"
| "rx_groups (Alt a b) = rx_groups a + rx_groups b"
| "rx_groups (Star a) = rx_groups a"
| "rx_groups (Grp n a) = Suc (rx_groups a)"

record vn_config =
  vn_pattern :: rx
  keep_suffix_length :: nat
  special_cases :: "string list"

definition default_vn_config :: vn_config where
  "default_vn_config =
     \<lparr>vn_pattern =
        rx_seq [Bol, Grp 1 (Seq (Cls [Ch CHR ''V'', Ch CHR ''P'']) (Plus Digit)),
                Opt (Seq Space (Grp 2 (Plus (Cls [(CHR ''a'', CHR ''z''), (CHR ''A'', CHR ''Z'')])))),
                Eol],
      keep_suffix_length = 1,
      special_cases = []\<rparr>"

definition normalize_visit_name :: "string \<Rightarrow> vn_config \<Rightarrow> py_error + string option" where
  "normalize_visit_name v config =
     (case re_match (vn_pattern config) False (strip v) of
        None \<Rightarrow>
          if upper (strip v) \<in> set (map code_points (special_cases config))
          then Inr (Some (str_of (upper (strip v))))
          else Inr None
      | Some m \<Rightarrow>
          if rx_groups (vn_pattern config) \<noteq> 2 then Inl ValueError
          else (case group (strip v) m 1 of
                  None \<Rightarrow> Inl AttributeError
                | Some base \<Rightarrow>
                    if upper base \<in> set (map code_points (special_cases config))
                    then Inr (Some (str_of (upper base)))
                    else if truthy (group (strip v) m 2) then
                      (if length (the_str (group (strip v) m 2)) = keep_suffix_length config
                       then Inr (Some base) else Inr None)
                    else Inr (Some base)))"

subsection \<open>soa\_parser.py: the schedule of the protocol\<close>

text \<open>
  The configuration keys the parser reads.  \<^verbatim>\<open>cell_markers\<close> is optional because its
  default differs between the functions that read it.
\<close>

record soa_config =
  soa_visit_patterns :: "rx list"
  header_keywords :: "rx list"
  min_visit_count :: nat
  cell_markers :: "rx list option"
  section_breaks :: "rx list"
  min_procedures :: nat
  consecutive_non_procedures_threshold :: nat
  procedure_filters :: "string list"

text \<open>\<^verbatim>\<open>config = {}\<close>: every key at the default of its \<^verbatim>\<open>config.get\<close>.\<close>

definition default_soa_config :: soa_config where
  "default_soa_config =
     \<lparr>soa_visit_patterns = [], header_keywords = [], min_visit_count = 3, cell_markers = None,
      section_breaks = [], min_procedures = 25, consecutive_non_procedures_threshold = 25,
      procedure_filters = []\<rparr>"

text \<open>The visit pattern the specification names, \<^verbatim>\<open>\bV\d+[A-Z]*\b\<close>.\<close>

definition visit_id_pattern :: rx where
  "visit_id_pattern = rx_seq [Wb, Lit CHR ''V'', Plus Digit, Star (Cls [(CHR ''A'', CHR ''Z'')]), Wb]"

text \<open>
  \<^verbatim>\<open>get_node_text\<close>: the text of the node and of everything below it, joined by
  spaces, line breaks replaced by spaces, stripped.
\<close>

definition unbreak :: "string \<Rightarrow> string" where
  "unbreak s = map (\<lambda>c. if c = newline \<or> c = CHR 0x0D then CHR '' '' else c) s"

fun get_node_text :: "node \<Rightarrow> string" where
  "get_node_text NotDict = []"
| "get_node_text (Node n t p cs) =
     strip (unbreak (t @ concat (map (\<lambda>child. '' '' @ get_node_text child) cs)))"

fun find_nodes_by_name :: "node \<Rightarrow> string \<Rightarrow> node list" where
  "find_nodes_by_name NotDict name_prefix = []"
| "find_nodes_by_name (Node n t p cs) name_prefix =
     (if startswith n name_prefix then [Node n t p cs] else [])
     @ concat (map (\<lambda>child. find_nodes_by_name child name_prefix) cs)"

definition flatten_row :: "node \<Rightarrow> string list" where
  "flatten_row row = (case row of NotDict \<Rightarrow> [] | Node n t p cs \<Rightarrow> map get_node_text cs)"

definition cell_has_marker :: "string \<Rightarrow> rx list \<Rightarrow> bool" where
  "cell_has_marker txt markers = list_ex (\<lambda>pattern. matched (re_search pattern True txt)) markers"

text \<open>\<^verbatim>\<open>max(matches, key=len)\<close>: the first of the longest matches.\<close>

definition max_by_len :: "string list \<Rightarrow> string" where
  "max_by_len ms = foldl (\<lambda>best x. if length best < length x then x else best) (hd ms) (tl ms)"

definition text_no_spaces :: "string \<Rightarrow> string" where
  "text_no_spaces t =
     filter (\<lambda>c. c \<noteq> CHR '' '' \<and> c \<noteq> CHR ''('' \<and> c \<noteq> CHR '')'' \<and> c \<noteq> CHR ''-'') t"

text \<open>
  \<^verbatim>\<open>extract_complete_visit_identifier\<close>.  The proportion test
  \<^verbatim>\<open>len(longest_match) / len(text_no_spaces) > 0.3\<close> is written over the integers; the
  division raises when the text has no character left.
\<close>

fun visit_identifier_in :: "string \<Rightarrow> rx list \<Rightarrow> py_error + string option" where
  "visit_identifier_in t [] = Inr None"
| "visit_identifier_in t (pattern # patterns) =
     (let matches = re_findall pattern True t
      in if matches \<noteq> [] then
           (if length (text_no_spaces t) = 0 then Inl ZeroDivisionError
            else if 3 * length (text_no_spaces t) < 10 * length (max_by_len matches)
                 then Inr (Some (max_by_len matches))
                 else visit_identifier_in t patterns)
         else visit_identifier_in t patterns)"

definition extract_complete_visit_identifier :: "string \<Rightarrow> rx list \<Rightarrow> py_error + string option" where
  "extract_complete_visit_identifier txt patterns = visit_identifier_in (strip txt) patterns"

text \<open>\<^verbatim>\<open>detect_visit_header_row\<close>: the first row of the highest score.\<close>

definition row_score :: "soa_config \<Rightarrow> string list \<Rightarrow> py_error + nat" where
  "row_score config row =
     (case map_err (\<lambda>cell. extract_complete_visit_identifier cell (soa_visit_patterns config)) row of
        Inl e \<Rightarrow> Inl e
      | Inr ids \<Rightarrow>
          Inr (length (remdups (map (\<lambda>r. upper (the_str r)) (filter truthy ids)))
               + 2 * length (filter (\<lambda>keyword. matched (re_search keyword False (join '' '' (map lower row))))
                               (header_keywords config))))"

definition header_step ::
  "soa_config \<Rightarrow> string list \<Rightarrow> string list option \<times> nat \<Rightarrow> py_error + string list option \<times> nat" where
  "header_step config row best =
     (if row = [] then Inr best
      else case row_score config row of
        Inl e \<Rightarrow> Inl e
      | Inr score \<Rightarrow>
          if snd best < score \<and> min_visit_count config \<le> score then Inr (Some row, score)
          else Inr best)"

definition detect_visit_header_row :: "string list list \<Rightarrow> soa_config \<Rightarrow> py_error + string list option" where
  "detect_visit_header_row all_rows config =
     (case fold_err (header_step config) all_rows (None, 0) of
        Inl e \<Rightarrow> Inl e
      | Inr best \<Rightarrow> Inr (fst best))"

text \<open>
  The column map of the header row.  \<^verbatim>\<open>seen_visits\<close> is a Python set; the model
  lists its elements in the order they were added.  The \<^verbatim>\<open>while\<close> loop that looks for
  a free name is \<open>disambiguate\<close>; it ends because the names it tries are pairwise distinct
  and only finitely many names are taken.
\<close>

definition suffixed :: "string \<Rightarrow> nat \<Rightarrow> string" where
  "suffixed original_visit counter = original_visit @ ''_'' @ str_nat counter"

lemma digit_char_value: "d < 10 \<Longrightarrow> cp (digit_char d) - 48 = d"
proof -
  assume "d < 10"
  then have "d \<in> {0, 1, 2, 3, 4, 5, 6, 7, 8, 9}" by auto
  then show ?thesis by (auto simp: digit_char_def cp_def)
qed

lemma int_of_digits_snoc: "int_of_digits (s @ [c]) = 10 * int_of_digits s + (cp c - 48)"
  by (simp add: int_of_digits_def)

lemma int_of_digits_str_nat: "int_of_digits (str_nat n) = n"
proof (induction n rule: str_nat.induct)
  case (1 n)
  show ?case
  proof (cases "n < 10")
    case True
    then show ?thesis
      by (subst str_nat.simps) (simp add: int_of_digits_def digit_char_value)
  next
    case False
    then have "int_of_digits (str_nat (n div 10)) = n div 10"
      using "1.IH" by simp
    then show ?thesis
      using False
      by (subst str_nat.simps) (simp add: int_of_digits_snoc digit_char_value)
  qed
qed

lemma suffixed_inj: "suffixed b j = suffixed b k \<Longrightarrow> j = k"
proof -
  assume "suffixed b j = suffixed b k"
  then have "str_nat j = str_nat k" by (simp add: suffixed_def)
  then have "int_of_digits (str_nat j) = int_of_digits (str_nat k)" by (rule arg_cong)
  then show ?thesis by (simp only: int_of_digits_str_nat)
qed

lemma finite_taken: "finite {k. counter \<le> k \<and> suffixed b k \<in> set seen}"
proof -
  have "inj (suffixed b)"
    by (rule injI) (rule suffixed_inj)
  then have "finite (suffixed b -` set seen)"
    by (intro finite_vimageI) simp_all
  moreover have "{k. counter \<le> k \<and> suffixed b k \<in> set seen} \<subseteq> suffixed b -` set seen"
    by auto
  ultimately show ?thesis by (rule rev_finite_subset)
qed

function disambiguate :: "string \<Rightarrow> string \<Rightarrow> nat \<Rightarrow> string list \<Rightarrow> string" where
  "disambiguate original_visit visit_id counter seen =
     (if visit_id \<in> set seen
      then disambiguate original_visit (suffixed original_visit counter) (Suc counter) seen
      else visit_id)"
  by pat_completeness auto
termination
proof (relation "measure (\<lambda>(b, v, c, seen).
          card {k. c \<le> k \<and> suffixed b k \<in> set seen} + (if v \<in> set seen then 1 else 0))")
  show "wf (measure (\<lambda>(b, v, c, seen).
          card {k. c \<le> k \<and> suffixed b k \<in> set seen} + (if v \<in> set seen then 1 else 0)))"
    by simp
next
  fix original_visit visit_id :: string and counter :: nat and seen :: "string list"
  assume v: "visit_id \<in> set seen"
  let ?A = "{k. counter \<le> k \<and> suffixed original_visit k \<in> set seen}"
  let ?B = "{k. Suc counter \<le> k \<and> suffixed original_visit k \<in> set seen}"
  have fin: "finite ?A" by (rule finite_taken)
  have sub: "?B \<subseteq> ?A" by auto
  have "card ?B + (if suffixed original_visit counter \<in> set seen then 1 else 0) \<le> card ?A"
  proof (cases "suffixed original_visit counter \<in> set seen")
    case True
    then have "counter \<in> ?A" by simp
    moreover have "counter \<notin> ?B" by simp
    ultimately have "?B \<noteq> ?A" by metis
    then have "?B \<subset> ?A" using sub by (simp add: psubset_eq)
    then have "card ?B < card ?A" using fin by (rule psubset_card_mono[rotated])
    then show ?thesis using True by simp
  next
    case False
    then show ?thesis using card_mono[OF fin sub] by simp
  qed
  then show "((original_visit, suffixed original_visit counter, Suc counter, seen),
              (original_visit, visit_id, counter, seen))
        \<in> measure (\<lambda>(b, v, c, seen).
            card {k. c \<le> k \<and> suffixed b k \<in> set seen} + (if v \<in> set seen then 1 else 0))"
    using v by simp
qed

declare disambiguate.simps [simp del]

record cols_state =
  column_to_visit :: "(nat \<times> string) list"
  visit_order :: "string list"
  seen_visits :: "string list"

definition add_visit :: "nat \<times> string \<Rightarrow> cols_state \<Rightarrow> cols_state" where
  "add_visit ib st =
     (let original_visit = snd ib;
          visit_id = disambiguate original_visit original_visit 1 (seen_visits st)
      in \<lparr>column_to_visit = column_to_visit st @ [(fst ib, visit_id)],
          visit_order = visit_order st @ [visit_id],
          seen_visits = seen_visits st @ [visit_id]\<rparr>)"

definition add_visit_column :: "rx list \<Rightarrow> nat \<times> string \<Rightarrow> cols_state \<Rightarrow> py_error + cols_state" where
  "add_visit_column patterns icell st =
     (case extract_complete_visit_identifier (snd icell) patterns of
        Inl e \<Rightarrow> Inl e
      | Inr visit_id \<Rightarrow>
          if truthy visit_id then Inr (add_visit (fst icell, the_str visit_id) st) else Inr st)"

definition build_visit_columns :: "rx list \<Rightarrow> string list \<Rightarrow> py_error + cols_state" where
  "build_visit_columns patterns visit_row =
     fold_err (add_visit_column patterns) (enumerate 0 visit_row)
       \<lparr>column_to_visit = [], visit_order = [], seen_visits = []\<rparr>"

text \<open>
  The cells of the header row that hold a visit identifier, with their columns: what
  the loop above reads from the row, written without the state.
\<close>

fun visit_cells :: "rx list \<Rightarrow> (nat \<times> string) list \<Rightarrow> py_error + (nat \<times> string) list" where
  "visit_cells patterns [] = Inr []"
| "visit_cells patterns (icell # icells) =
     (case extract_complete_visit_identifier (snd icell) patterns of
        Inl e \<Rightarrow> Inl e
      | Inr r \<Rightarrow>
          (case visit_cells patterns icells of
             Inl e \<Rightarrow> Inl e
           | Inr ids \<Rightarrow> Inr (if truthy r then (fst icell, the_str r) # ids else ids)))"

text \<open>The names the loop gives to a list of identifiers when \<open>seen\<close> are taken.\<close>

fun fresh_names :: "string list \<Rightarrow> string list \<Rightarrow> string list" where
  "fresh_names [] seen = []"
| "fresh_names (b # bs) seen =
     disambiguate b b 1 seen # fresh_names bs (seen @ [disambiguate b b 1 seen])"

text \<open>How a name of the visit list relates to the identifier read from its cell.\<close>

definition names_base :: "string \<Rightarrow> string \<Rightarrow> bool" where
  "names_base v b = (v = b \<or> (\<exists>k\<ge>1. v = suffixed b k))"

definition has_numeric_suffix :: "string \<Rightarrow> string \<Rightarrow> bool" where
  "has_numeric_suffix v b = (\<exists>k\<ge>1. v = suffixed b k)"

text \<open>\<^verbatim>\<open>find_schedule_end\<close> (the first loop of the source only counts rows for the log).\<close>

definition markers_or :: "soa_config \<Rightarrow> rx list \<Rightarrow> rx list" where
  "markers_or config dflt = (case cell_markers config of None \<Rightarrow> dflt | Some ms \<Rightarrow> ms)"

definition default_end_markers :: "rx list" where
  "default_end_markers =
     [rx_seq [Wb, rx_alts [Lit CHR ''X'', rx_str ''YES'', Lit CHR ''Y''], Wb]]"

definition has_markers :: "string list \<Rightarrow> (nat \<times> string) list \<Rightarrow> rx list \<Rightarrow> bool" where
  "has_markers row c2v markers =
     list_ex (\<lambda>col. if col < length row then cell_has_marker (row ! col) markers else False) (map fst c2v)"

fun schedule_end_from ::
  "soa_config \<Rightarrow> (nat \<times> string) list \<Rightarrow> string list list \<Rightarrow> nat \<Rightarrow> nat \<Rightarrow> nat \<Rightarrow> nat option" where
  "schedule_end_from config c2v [] i procedure_count consecutive = None"
| "schedule_end_from config c2v (row # rows) i procedure_count consecutive =
     (if row = [] then schedule_end_from config c2v rows (Suc i) procedure_count consecutive
      else if has_markers row c2v (markers_or config default_end_markers)
        then schedule_end_from config c2v rows (Suc i) (Suc procedure_count) 0
      else if min_procedures config \<le> procedure_count
              \<and> consecutive_non_procedures_threshold config < Suc consecutive
        then Some i
      else if min_procedures config \<le> procedure_count
              \<and> list_ex (\<lambda>pattern. matched (re_match pattern True (strip (hd row)))) (section_breaks config)
        then Some i
      else schedule_end_from config c2v rows (Suc i) procedure_count (Suc consecutive))"

definition find_schedule_end :: "string list list \<Rightarrow> (nat \<times> string) list \<Rightarrow> nat \<Rightarrow> soa_config \<Rightarrow> nat" where
  "find_schedule_end all_rows c2v start_from config =
     (case schedule_end_from config c2v (drop start_from all_rows) start_from 0 0 of
        Some i \<Rightarrow> i
      | None \<Rightarrow> length all_rows)"

text \<open>
  The loop over the rows between the header and the end.  \<^verbatim>\<open>schedule\<close> is a dictionary
  from a visit to the procedures attended, kept as an association list in insertion order.
\<close>

fun skip_row :: "string \<Rightarrow> rx list \<Rightarrow> string list \<Rightarrow> py_error + bool" where
  "skip_row first_cell patterns [] = Inr False"
| "skip_row first_cell patterns (filter_term # rest) =
     (if lower first_cell = lower filter_term then Inr True
      else case extract_complete_visit_identifier first_cell patterns of
        Inl e \<Rightarrow> Inl e
      | Inr r \<Rightarrow> if truthy r then Inr True else skip_row first_cell patterns rest)"

definition schedule_add :: "string \<Rightarrow> string \<Rightarrow> (string \<times> string list) list \<Rightarrow> (string \<times> string list) list" where
  "schedule_add visit_name procedure schedule =
     (if visit_name \<in> fst ` set schedule
      then map (\<lambda>(v, ps). if v = visit_name then (v, ps @ [procedure]) else (v, ps)) schedule
      else schedule @ [(visit_name, [procedure])])"

definition mark_row ::
  "rx list \<Rightarrow> (nat \<times> string) list \<Rightarrow> string list \<Rightarrow> string
     \<Rightarrow> (string \<times> string list) list \<Rightarrow> (string \<times> string list) list" where
  "mark_row markers c2v row procedure schedule =
     fold (\<lambda>(col, visit_name) sch.
             if cell_has_marker (if col < length row then row ! col else []) markers
             then schedule_add visit_name procedure sch else sch)
       c2v schedule"

definition procedure_step ::
  "soa_config \<Rightarrow> (nat \<times> string) list \<Rightarrow> string list
     \<Rightarrow> (string \<times> string list) list \<times> string list
     \<Rightarrow> py_error + (string \<times> string list) list \<times> string list" where
  "procedure_step config c2v row st =
     (if row = [] then Inr st
      else case skip_row (strip (hd row)) (soa_visit_patterns config) (procedure_filters config) of
        Inl e \<Rightarrow> Inl e
      | Inr True \<Rightarrow> Inr st
      | Inr False \<Rightarrow>
          if has_markers row c2v (markers_or config [])
          then Inr (mark_row (markers_or config []) c2v row (strip (hd row)) (fst st),
                    if strip (hd row) \<notin> set (snd st) then snd st @ [strip (hd row)] else snd st)
          else Inr st)"

text \<open>
  \<^verbatim>\<open>parse_protocol_schedule\<close>.  The search for the schedule tables
  (\<^verbatim>\<open>find_all_schedule_tables\<close>, which merges split tables by changing the tree in
  place) is the parameter \<open>finder\<close>.  The result \<open>None\<close> is the triple of \<^verbatim>\<open>None\<close>s.
\<close>

definition all_rows_of :: "node list \<Rightarrow> string list list" where
  "all_rows_of tables = concat (map (\<lambda>table. map flatten_row (find_nodes_by_name table ''TR'')) tables)"

definition index_of :: "'a \<Rightarrow> 'a list \<Rightarrow> nat" where
  "index_of x xs = length (takeWhile (\<lambda>y. y \<noteq> x) xs)"

type_synonym schedule_result = "(string \<times> string list) list \<times> string list \<times> string list"

definition schedule_from_header ::
  "soa_config \<Rightarrow> string list list \<Rightarrow> string list \<Rightarrow> py_error + schedule_result option" where
  "schedule_from_header config all_rows visit_row =
     (case build_visit_columns (soa_visit_patterns config) visit_row of
        Inl e \<Rightarrow> Inl e
      | Inr cols \<Rightarrow>
          if visit_order cols = [] then Inr None
          else
            (let header_row_index = index_of visit_row all_rows;
                 end_index = find_schedule_end all_rows (column_to_visit cols) (Suc header_row_index) config;
                 rows = take (end_index - Suc header_row_index) (drop (Suc header_row_index) all_rows)
             in case fold_err (procedure_step config (column_to_visit cols)) rows ([], []) of
                  Inl e \<Rightarrow> Inl e
                | Inr st \<Rightarrow> Inr (Some (fst st, visit_order cols, snd st))))"

definition parse_protocol_schedule ::
  "(node \<Rightarrow> soa_config \<Rightarrow> py_error + node list) \<Rightarrow> node \<Rightarrow> soa_config \<Rightarrow> py_error + schedule_result option" where
  "parse_protocol_schedule finder protocol_data config =
     (case finder protocol_data config of
        Inl e \<Rightarrow> Inl e
      | Inr tables \<Rightarrow>
          if tables = [] then Inr None
          else case detect_visit_header_row (all_rows_of tables) config of
            Inl e \<Rightarrow> Inl e
          | Inr None \<Rightarrow> Inr None
          | Inr (Some visit_row) \<Rightarrow>
              if visit_row = [] then Inr None
              else schedule_from_header config (all_rows_of tables) visit_row)"

text \<open>
  \<^verbatim>\<open>parse_soa\<close>.  \<open>loaded\<close> is what reading the JSON file gives and \<open>write_error\<close> the
  exception writing the CSV file raises, if any.  Every exception is logged and raised
  again.
\<close>

definition parse_soa ::
  "(node \<Rightarrow> soa_config \<Rightarrow> py_error + node list) \<Rightarrow> py_error + node \<Rightarrow> string \<Rightarrow> soa_config
     \<Rightarrow> py_error option \<Rightarrow> py_error + string" where
  "parse_soa finder loaded output_csv config write_error =
     (case loaded of
        Inl e \<Rightarrow> Inl e
      | Inr protocol_data \<Rightarrow>
          (case parse_protocol_schedule finder protocol_data config of
             Inl e \<Rightarrow> Inl e
           | Inr None \<Rightarrow> Inl ValueError
           | Inr (Some res) \<Rightarrow>
               if fst res \<noteq> [] then (case write_error of Some e \<Rightarrow> Inl e | None \<Rightarrow> Inr output_csv)
               else Inl ValueError))"

text \<open>
  \<^verbatim>\<open>extract_forms\<close> of form\_extractor.py: reads the JSON file, extracts the forms and
  writes them under the header line.  The result is the path and the rows written.
\<close>

definition extract_forms ::
  "(node \<Rightarrow> node \<Rightarrow> form_details) \<Rightarrow> py_error + node \<Rightarrow> string \<Rightarrow> fe_config \<Rightarrow> py_error option
     \<Rightarrow> py_error + string \<times> form_row list" where
  "extract_forms describe loaded output_csv config write_error =
     (case loaded of
        Inl e \<Rightarrow> Inl e
      | Inr data \<Rightarrow>
          (let extracted_forms = extract_forms_with_corrections describe data config
           in case write_error of Some e \<Rightarrow> Inl e | None \<Rightarrow> Inr (output_csv, extracted_forms)))"

definition example_header_row :: "string list" where
  "example_header_row = [''Procedure'', ''V1'', ''V1'', ''V2'']"

definition example_empty_document :: node where
  "example_empty_document = Node ''Document'' [] [] [Node ''P'' ''No forms here'' [] []]"

subsection \<open>difflib.SequenceMatcher, as common\_matrix.py calls it\<close>

text \<open>
  \<^verbatim>\<open>fuzzy_match\<close> is \<^verbatim>\<open>SequenceMatcher(None, a, b).ratio()\<close> of Python's standard
  library.  The model follows \<^verbatim>\<open>Lib/difflib.py\<close> for \<^verbatim>\<open>isjunk = None\<close> and
  \<^verbatim>\<open>autojunk = True\<close>: no element is junk, and an element of \<open>b\<close> is dropped from the
  index \<^verbatim>\<open>b2j\<close> when \<open>b\<close> has at least 200 elements and the element fills more than
  1\% of it plus one.
\<close>

definition b2j :: "string \<Rightarrow> char \<Rightarrow> nat list" where
  "b2j b elt =
     (let idxs = filter (\<lambda>j. b ! j = elt) [0..<length b]
      in if 200 \<le> length b \<and> length b div 100 + 1 < length idxs then [] else idxs)"

text \<open>
  \<^verbatim>\<open>find_longest_match\<close>.  The state of the scan is the best block
  \<open>(besti, bestj, bestsize)\<close> and the dictionary \<^verbatim>\<open>j2len\<close>, a function that is 0 where
  the dictionary has no key (\<^verbatim>\<open>j2len.get(j-1, 0)\<close>).
\<close>

type_synonym block = "nat \<times> nat \<times> nat"

definition flm_inner :: "nat \<Rightarrow> (nat \<Rightarrow> nat) \<Rightarrow> nat \<Rightarrow> block \<times> (nat \<Rightarrow> nat) \<Rightarrow> block \<times> (nat \<Rightarrow> nat)" where
  "flm_inner i j2len j s =
     (let k = (if j = 0 then 0 else j2len (j - 1)) + 1
      in (if snd (snd (fst s)) < k then (i + 1 - k, j + 1 - k, k) else fst s, (snd s)(j := k)))"

definition flm_row :: "string \<Rightarrow> string \<Rightarrow> nat \<Rightarrow> nat \<Rightarrow> nat \<Rightarrow> block \<times> (nat \<Rightarrow> nat) \<Rightarrow> block \<times> (nat \<Rightarrow> nat)" where
  "flm_row a b blo bhi i s =
     fold (flm_inner i (snd s))
       (filter (\<lambda>j. blo \<le> j) (takeWhile (\<lambda>j. j < bhi) (b2j b (a ! i))))
       (fst s, \<lambda>j. 0)"

function extend_back :: "string \<Rightarrow> string \<Rightarrow> nat \<Rightarrow> nat \<Rightarrow> block \<Rightarrow> block" where
  "extend_back a b alo blo (besti, bestj, bestsize) =
     (if alo < besti \<and> blo < bestj \<and> a ! (besti - 1) = b ! (bestj - 1)
      then extend_back a b alo blo (besti - 1, bestj - 1, bestsize + 1)
      else (besti, bestj, bestsize))"
  by pat_completeness auto
termination
  by (relation "measure (\<lambda>(a, b, alo, blo, besti, bestj, bestsize). besti)") auto

function extend_forward :: "string \<Rightarrow> string \<Rightarrow> nat \<Rightarrow> nat \<Rightarrow> block \<Rightarrow> block" where
  "extend_forward a b ahi bhi (besti, bestj, bestsize) =
     (if besti + bestsize < ahi \<and> bestj + bestsize < bhi \<and> a ! (besti + bestsize) = b ! (bestj + bestsize)
      then extend_forward a b ahi bhi (besti, bestj, bestsize + 1)
      else (besti, bestj, bestsize))"
  by pat_completeness auto
termination
  by (relation "measure (\<lambda>(a, b, ahi, bhi, besti, bestj, bestsize). ahi - (besti + bestsize))") auto

declare extend_back.simps [simp del]
declare extend_forward.simps [simp del]

definition find_longest_match :: "string \<Rightarrow> string \<Rightarrow> nat \<Rightarrow> nat \<Rightarrow> nat \<Rightarrow> nat \<Rightarrow> block" where
  "find_longest_match a b alo ahi blo bhi =
     extend_forward a b ahi bhi
       (extend_back a b alo blo
          (fst (fold (flm_row a b blo bhi) [alo..<ahi] ((alo, blo, 0), \<lambda>j. 0))))"

text \<open>
  The block found lies inside the rows \<open>alo .. ahi\<close>.  The recursion of
  \<^verbatim>\<open>get_matching_blocks\<close> ends because of this.
\<close>

definition flm_inv :: "nat \<Rightarrow> nat \<Rightarrow> block \<times> (nat \<Rightarrow> nat) \<Rightarrow> bool" where
  "flm_inv alo n s =
     ((\<forall>j. snd s j \<le> n) \<and> alo \<le> fst (fst s) \<and> fst (fst s) + snd (snd (fst s)) \<le> alo + n)"

lemma flm_inner_inv:
  assumes "\<forall>j. j2len j \<le> n"
    and "(\<forall>j. snd s j \<le> Suc n) \<and> alo \<le> fst (fst s) \<and> fst (fst s) + snd (snd (fst s)) \<le> alo + Suc n"
  shows "(\<forall>j'. snd (flm_inner (alo + n) j2len j s) j' \<le> Suc n)
         \<and> alo \<le> fst (fst (flm_inner (alo + n) j2len j s))
         \<and> fst (fst (flm_inner (alo + n) j2len j s)) + snd (snd (fst (flm_inner (alo + n) j2len j s)))
             \<le> alo + Suc n"
proof -
  have k: "(if j = 0 then 0 else j2len (j - 1)) + 1 \<le> Suc n"
    using assms(1) by auto
  show ?thesis
    using assms(2) k by (auto simp: flm_inner_def Let_def)
qed

lemma flm_row_inv:
  assumes "flm_inv alo n s"
  shows "flm_inv alo (Suc n) (flm_row a b blo bhi (alo + n) s)"
proof -
  let ?P = "\<lambda>t. (\<forall>j. snd t j \<le> Suc n) \<and> alo \<le> fst (fst t)
                  \<and> fst (fst t) + snd (snd (fst t)) \<le> alo + Suc n"
  have j2len: "\<forall>j. snd s j \<le> n"
    using assms by (simp add: flm_inv_def)
  have start: "?P (fst s, \<lambda>j. 0)"
    using assms by (simp add: flm_inv_def)
  have "?P (fold (flm_inner (alo + n) (snd s)) js (fst s, \<lambda>j. 0))" for js
  proof (induction js rule: rev_induct)
    case Nil
    show ?case using start by simp
  next
    case (snoc j js)
    then have "?P (flm_inner (alo + n) (snd s) j (fold (flm_inner (alo + n) (snd s)) js (fst s, \<lambda>j. 0)))"
      using flm_inner_inv[OF j2len] by blast
    then show ?case by simp
  qed
  then show ?thesis
    by (simp add: flm_inv_def flm_row_def)
qed

lemma flm_rows_inv: "flm_inv alo d (fold (flm_row a b blo bhi) [alo..<alo + d] ((alo, blo, 0), \<lambda>j. 0))"
proof (induction d)
  case 0
  then show ?case by (simp add: flm_inv_def)
next
  case (Suc d)
  have "[alo..<alo + Suc d] = [alo..<alo + d] @ [alo + d]"
    by simp
  then show ?case
    using flm_row_inv[OF Suc] by simp
qed

lemma extend_back_bounds:
  assumes "alo \<le> fst blk"
    and "fst blk + snd (snd blk) \<le> ahi \<or> (snd (snd blk) = 0 \<and> fst blk = alo)"
  shows "alo \<le> fst (extend_back a b alo blo blk)
         \<and> (fst (extend_back a b alo blo blk) + snd (snd (extend_back a b alo blo blk)) \<le> ahi
            \<or> snd (snd (extend_back a b alo blo blk)) = 0)"
  using assms
proof (induction a b alo blo blk rule: extend_back.induct)
  case (1 a b alo blo besti bestj bestsize)
  show ?case
  proof (cases "alo < besti \<and> blo < bestj \<and> a ! (besti - 1) = b ! (bestj - 1)")
    case True
    have "alo \<le> fst (extend_back a b alo blo (besti - 1, bestj - 1, bestsize + 1))
         \<and> (fst (extend_back a b alo blo (besti - 1, bestj - 1, bestsize + 1))
              + snd (snd (extend_back a b alo blo (besti - 1, bestj - 1, bestsize + 1))) \<le> ahi
            \<or> snd (snd (extend_back a b alo blo (besti - 1, bestj - 1, bestsize + 1))) = 0)"
    proof (rule "1.IH"[OF True])
      show "alo \<le> fst (besti - 1, bestj - 1, bestsize + 1)" using True by auto
      show "fst (besti - 1, bestj - 1, bestsize + 1) + snd (snd (besti - 1, bestj - 1, bestsize + 1)) \<le> ahi
            \<or> (snd (snd (besti - 1, bestj - 1, bestsize + 1)) = 0 \<and> fst (besti - 1, bestj - 1, bestsize + 1) = alo)"
        using True "1.prems" by auto
    qed
    moreover have "extend_back a b alo blo (besti, bestj, bestsize)
                     = extend_back a b alo blo (besti - 1, bestj - 1, bestsize + 1)"
      using True by (subst extend_back.simps) simp
    ultimately show ?thesis by simp
  next
    case False
    then have "extend_back a b alo blo (besti, bestj, bestsize) = (besti, bestj, bestsize)"
      by (subst extend_back.simps) auto
    then show ?thesis using "1.prems" by auto
  qed
qed

lemma extend_forward_bounds:
  "fst (extend_forward a b ahi bhi blk) = fst blk
   \<and> (fst blk + snd (snd (extend_forward a b ahi bhi blk)) \<le> ahi
      \<or> snd (snd (extend_forward a b ahi bhi blk)) = snd (snd blk))"
proof (induction a b ahi bhi blk rule: extend_forward.induct)
  case (1 a b ahi bhi besti bestj bestsize)
  show ?case
  proof (cases "besti + bestsize < ahi \<and> bestj + bestsize < bhi
                \<and> a ! (besti + bestsize) = b ! (bestj + bestsize)")
    case True
    from "1.IH"[OF True]
    have "fst (extend_forward a b ahi bhi (besti, bestj, bestsize + 1)) = besti
         \<and> (besti + snd (snd (extend_forward a b ahi bhi (besti, bestj, bestsize + 1))) \<le> ahi
            \<or> snd (snd (extend_forward a b ahi bhi (besti, bestj, bestsize + 1))) = bestsize + 1)"
      by simp
    then have "fst (extend_forward a b ahi bhi (besti, bestj, bestsize + 1)) = besti
         \<and> besti + snd (snd (extend_forward a b ahi bhi (besti, bestj, bestsize + 1))) \<le> ahi"
      using True by auto
    moreover have "extend_forward a b ahi bhi (besti, bestj, bestsize)
                     = extend_forward a b ahi bhi (besti, bestj, bestsize + 1)"
      using True by (subst extend_forward.simps) simp
    ultimately show ?thesis by simp
  next
    case False
    then have "extend_forward a b ahi bhi (besti, bestj, bestsize) = (besti, bestj, bestsize)"
      by (subst extend_forward.simps) auto
    then show ?thesis by simp
  qed
qed

lemma find_longest_match_bounds:
  assumes "find_longest_match a b alo ahi blo bhi = (i, j, k)"
  shows "alo \<le> i \<and> (i + k \<le> ahi \<or> k = 0)"
proof -
  let ?dp = "fst (fold (flm_row a b blo bhi) [alo..<ahi] ((alo, blo, 0), \<lambda>j. 0))"
  have dp: "alo \<le> fst ?dp \<and> (fst ?dp + snd (snd ?dp) \<le> ahi \<or> (snd (snd ?dp) = 0 \<and> fst ?dp = alo))"
  proof (cases "alo \<le> ahi")
    case True
    then obtain d where d: "ahi = alo + d"
      using le_Suc_ex by blast
    show ?thesis
      using flm_rows_inv[of alo d a b blo bhi] by (simp add: d flm_inv_def)
  next
    case False
    then show ?thesis by simp
  qed
  let ?bk = "extend_back a b alo blo ?dp"
  have bk: "alo \<le> fst ?bk \<and> (fst ?bk + snd (snd ?bk) \<le> ahi \<or> snd (snd ?bk) = 0)"
    using dp by (intro extend_back_bounds) auto
  have fw: "fst (extend_forward a b ahi bhi ?bk) = fst ?bk
         \<and> (fst ?bk + snd (snd (extend_forward a b ahi bhi ?bk)) \<le> ahi
            \<or> snd (snd (extend_forward a b ahi bhi ?bk)) = snd (snd ?bk))"
    by (rule extend_forward_bounds)
  have res: "extend_forward a b ahi bhi ?bk = (i, j, k)"
    using assms by (simp add: find_longest_match_def)
  from fw have i: "i = fst ?bk" and k: "i + k \<le> ahi \<or> k = snd (snd ?bk)"
    unfolding res by simp_all
  show ?thesis
    using bk i k by auto
qed

text \<open>
  \<^verbatim>\<open>get_matching_blocks\<close> takes a range from its queue, records the longest match
  in it, and queues the ranges left and right of the match.  The model visits the same
  ranges by recursion.  \<^verbatim>\<open>ratio\<close> sums the sizes of the blocks, which the final sorting
  and the merging of adjacent blocks leave unchanged.
\<close>

function matching_blocks_in :: "string \<Rightarrow> string \<Rightarrow> nat \<Rightarrow> nat \<Rightarrow> nat \<Rightarrow> nat \<Rightarrow> block list" where
  "matching_blocks_in a b alo ahi blo bhi =
     (let x = find_longest_match a b alo ahi blo bhi;
          i = fst x; j = fst (snd x); k = snd (snd x)
      in if k = 0 then []
         else x # (if i + k < ahi \<and> j + k < bhi then matching_blocks_in a b (i + k) ahi (j + k) bhi else [])
                @ (if alo < i \<and> blo < j then matching_blocks_in a b alo i blo j else []))"
  by pat_completeness auto
termination
proof (relation "measure (\<lambda>(a, b, alo, ahi, blo, bhi). ahi - alo)")
  show "wf (measure (\<lambda>(a, b, alo, ahi, blo, bhi). ahi - alo))"
    by simp
next
  fix a b :: string and alo ahi blo bhi :: nat and x :: block and xa xb xc :: nat
  assume x: "x = find_longest_match a b alo ahi blo bhi"
    and "xa = fst x" "xb = fst (snd x)" "xc = snd (snd x)" "xc \<noteq> 0"
    and "xa + xc < ahi \<and> xb + xc < bhi"
  moreover have "alo \<le> fst x \<and> (fst x + snd (snd x) \<le> ahi \<or> snd (snd x) = 0)"
    using find_longest_match_bounds[of a b alo ahi blo bhi "fst x" "fst (snd x)" "snd (snd x)"] x
    by simp
  ultimately show "((a, b, xa + xc, ahi, xb + xc, bhi), (a, b, alo, ahi, blo, bhi))
        \<in> measure (\<lambda>(a, b, alo, ahi, blo, bhi). ahi - alo)"
    by auto
next
  fix a b :: string and alo ahi blo bhi :: nat and x :: block and xa xb xc :: nat
  assume x: "x = find_longest_match a b alo ahi blo bhi"
    and "xa = fst x" "xb = fst (snd x)" "xc = snd (snd x)" "xc \<noteq> 0"
    and "alo < xa \<and> blo < xb"
  moreover have "alo \<le> fst x \<and> (fst x + snd (snd x) \<le> ahi \<or> snd (snd x) = 0)"
    using find_longest_match_bounds[of a b alo ahi blo bhi "fst x" "fst (snd x)" "snd (snd x)"] x
    by simp
  ultimately show "((a, b, alo, xa, blo, xb), (a, b, alo, ahi, blo, bhi))
        \<in> measure (\<lambda>(a, b, alo, ahi, blo, bhi). ahi - alo)"
    by auto
qed

declare matching_blocks_in.simps [simp del]

definition matches :: "string \<Rightarrow> string \<Rightarrow> nat" where
  "matches a b = sum_list (map (\<lambda>x. snd (snd x)) (matching_blocks_in a b 0 (length a) 0 (length b)))"

text \<open>
  \<^verbatim>\<open>ratio\<close>: \<^verbatim>\<open>2.0 * matches / length\<close>, and 1.0 for two empty sequences.  The result
  is a float: the quotient, rounded.  The floats are modelled by a linear order \<open>'f\<close> and
  the rounding by a parameter \<open>fl\<close>, which takes a rational number to the float of it.
\<close>

definition ratio :: "(rat \<Rightarrow> 'f) \<Rightarrow> string \<Rightarrow> string \<Rightarrow> 'f" where
  "ratio fl a b =
     (if length a + length b = 0 then fl 1
      else fl (2 * of_nat (matches a b) / of_nat (length a + length b)))"

definition fuzzy_match :: "(rat \<Rightarrow> 'f) \<Rightarrow> string \<Rightarrow> string \<Rightarrow> bool \<Rightarrow> 'f" where
  "fuzzy_match fl a b case_insensitive =
     (if case_insensitive then ratio fl (lower a) (lower b) else ratio fl a b)"

text \<open>
  The rounding of the closed examples: their quotients (0, 1/4, 1/2, 1) are floats, so
  the rounding leaves them as they are.
\<close>

definition exact :: "rat \<Rightarrow> rat" where
  "exact q = q"

subsection \<open>common\_matrix.py: the best procedure of a form label\<close>

text \<open>
  The loop of \<^verbatim>\<open>generate_ordered_soa_matrix\<close> over \<^verbatim>\<open>enumerate(proc_order)\<close> for one
  form label.  The state is \<open>(best_score, best_idx, best_proc)\<close>, at first
  \<open>(0, 9999, None)\<close>; the threshold is a float of the configuration.
\<close>

type_synonym 'f match_state = "'f \<times> nat \<times> string option"

definition match_step ::
  "(rat \<Rightarrow> 'f::linorder) \<Rightarrow> 'f \<Rightarrow> bool \<Rightarrow> string \<Rightarrow> nat \<times> string \<Rightarrow> 'f match_state \<Rightarrow> 'f match_state" where
  "match_step fl threshold case_insensitive form_label iproc st =
     (let score = fuzzy_match fl (snd iproc) form_label case_insensitive
      in if threshold \<le> score \<and> fst st < score then (score, fst iproc, Some (snd iproc)) else st)"

definition best_procedure ::
  "(rat \<Rightarrow> 'f::linorder) \<Rightarrow> 'f \<Rightarrow> bool \<Rightarrow> string list \<Rightarrow> string \<Rightarrow> 'f match_state" where
  "best_procedure fl threshold case_insensitive proc_order form_label =
     fold (match_step fl threshold case_insensitive form_label) (enumerate 0 proc_order)
       (fl 0, 9999, None)"

text \<open>
  \<^verbatim>\<open>if best_proc:\<close> the label is mapped to the index and the procedure; otherwise it
  is appended to \<^verbatim>\<open>unmapped_forms\<close> (\<open>None\<close>).
\<close>

definition matched_procedure ::
  "(rat \<Rightarrow> 'f::linorder) \<Rightarrow> 'f \<Rightarrow> bool \<Rightarrow> string list \<Rightarrow> string \<Rightarrow> (nat \<times> string) option" where
  "matched_procedure fl threshold case_insensitive proc_order form_label =
     (let st = best_procedure fl threshold case_insensitive proc_order form_label
      in if truthy (snd (snd st)) then Some (fst (snd st), the_str (snd (snd st))) else None)"

text \<open>The entry of \<^verbatim>\<open>form_order_map\<close> for the label, if it gets one.\<close>

definition form_order_entry ::
  "(rat \<Rightarrow> 'f::linorder) \<Rightarrow> 'f \<Rightarrow> bool \<Rightarrow> bool \<Rightarrow> string list \<Rightarrow> string \<Rightarrow> (nat \<times> string) option" where
  "form_order_entry fl threshold case_insensitive include_unmapped proc_order form_label =
     (case matched_procedure fl threshold case_insensitive proc_order form_label of
        Some e \<Rightarrow> Some e
      | None \<Rightarrow> if include_unmapped then Some (9999, ''Unmapped'') else None)"

section \<open>Theorems\<close>

subsection \<open>Shared lemmas\<close>

lemma fold_preserves:
  assumes "\<And>c s. c \<in> set cs \<Longrightarrow> P s \<Longrightarrow> P (f c s)" and "P s"
  shows "P (fold f cs s)"
  using assms by (induction cs arbitrary: s) auto

subsection \<open>The pair-key invariant of the items pipeline\<close>

definition forms_inv :: "forms_state \<Rightarrow> bool" where
  "forms_inv st = (distinct (map pair_key (results st)) \<and> seen_forms st = set (map pair_key (results st)))"

lemma record_form_inv:
  "forms_inv st \<Longrightarrow> forms_inv (record_form h1_text h1_node nd cl txt st)"
  by (auto simp: forms_inv_def record_form_def pair_key_def Let_def)

lemma find_forms_in_node_inv:
  "forms_inv st \<Longrightarrow> forms_inv (find_forms_in_node h1_text h1_node cl nd st)"
proof (induction h1_text h1_node cl nd st rule: find_forms_in_node.induct)
  case (1 h1_text h1_node current_label st)
  then show ?case by simp
next
  case (2 h1_text h1_node current_label n t p cs st)
  show ?case
    unfolding find_forms_in_node.simps Let_def
    by (rule fold_preserves) (auto intro: "2.IH" "2.prems" record_form_inv)
qed

lemma process_h1_section_inv:
  "forms_inv st \<Longrightarrow> forms_inv (process_h1_section h1_node st)"
  unfolding process_h1_section_def Let_def by (rule find_forms_in_node_inv)

lemma find_h1_sections_inv:
  "forms_inv st \<Longrightarrow> forms_inv (find_h1_sections nd st)"
proof (induction nd st rule: find_h1_sections.induct)
  case (1 st)
  then show ?case by simp
next
  case (2 n t p cs st)
  let ?st = "if startswith n ''H1'' then process_h1_section (Node n t p cs) st else st"
  have start: "forms_inv ?st"
    using "2.prems" by (simp add: process_h1_section_inv)
  have "forms_inv (fold (\<lambda>child s. find_h1_sections child s) cs ?st)"
  proof (rule fold_preserves)
    fix c s
    assume "c \<in> set cs" "forms_inv s"
    then show "forms_inv (find_h1_sections c s)" by (rule "2.IH")
  next
    show "forms_inv ?st" by (rule start)
  qed
  then show ?case by (simp only: find_h1_sections.simps)
qed

lemma forms_cleaned_distinct:
  "distinct (map pair_key (extract_forms_cleaned data))"
proof -
  have "forms_inv \<lparr>results = [], seen_forms = {}\<rparr>"
    by (simp add: forms_inv_def)
  then have "forms_inv (find_h1_sections data \<lparr>results = [], seen_forms = {}\<rparr>)"
    by (rule find_h1_sections_inv)
  then show ?thesis
    by (simp add: forms_inv_def extract_forms_cleaned_def)
qed

text \<open>
  C10.  In the list \<^verbatim>\<open>extract_forms_cleaned\<close> returns, no two records share the pair
  (Form Label, Form Name): the key holds no visits string, and a later node with the
  label and the name of an earlier record adds nothing, whatever stands below it.
\<close>

theorem extract_forms_cleaned_pair_distinct:
  "distinct (map pair_key (extract_forms_cleaned data))"
  by (rule forms_cleaned_distinct)

lemma example_forms_tree_keys:
  "map pair_key (extract_forms_cleaned example_forms_tree) = [(''Demographics'', ''[DEMOG]'')]"
  by code_simp

text \<open>
  In the example the two nodes named \<^verbatim>\<open>[DEMOG]\<close> stand under the same label; the second
  has a visit below it and the first has not.  One record is kept.
\<close>

theorem extract_forms_cleaned_pair_distinct_witness:
  "distinct (map pair_key (extract_forms_cleaned example_forms_tree))
   \<and> map pair_key (extract_forms_cleaned example_forms_tree) = [(''Demographics'', ''[DEMOG]'')]"
  using extract_forms_cleaned_pair_distinct[of example_forms_tree] example_forms_tree_keys
  by (rule conjI)

subsection \<open>The dedup invariants of the form table and of the item list\<close>

definition fe_inv :: "fe_state \<Rightarrow> bool" where
  "fe_inv st = (distinct (map triple_key (fe_results st))
                \<and> fe_seen_forms st = set (map triple_key (fe_results st)))"

lemma fe_record_form_inv:
  "fe_inv st \<Longrightarrow> fe_inv (fe_record_form config describe h1_text h1_node sv cl nd st)"
  by (auto simp: fe_inv_def fe_record_form_def triple_key_def Let_def)

lemma fe_visit_node_inv:
  assumes "fe_inv st"
    and "fe_visit_node config describe h1_text h1_node sv cl nd st = Some r"
  shows "fe_inv (snd r)"
  using assms by (auto simp: fe_visit_node_def Let_def fe_record_form_inv split: if_splits)

lemma fe_find_forms_in_node_inv:
  "fe_inv st \<Longrightarrow> fe_inv (fe_find_forms_in_node config describe h1_text h1_node sv cl nd st)"
proof (induction config describe h1_text h1_node sv cl nd st rule: fe_find_forms_in_node.induct)
  case (1 config describe h1_text h1_node section_visits current_label st)
  then show ?case by simp
next
  case (2 config describe h1_text h1_node section_visits current_label n t p cs st)
  show ?case
  proof (cases "fe_visit_node config describe h1_text h1_node section_visits current_label (Node n t p cs) st")
    case None
    then show ?thesis using "2.prems" by simp
  next
    case (Some r)
    have r: "fe_inv (snd r)"
      using "2.prems" Some by (rule fe_visit_node_inv)
    have "fe_inv (fold (\<lambda>child s. fe_find_forms_in_node config describe h1_text h1_node section_visits
                                    (fst r) child s) cs (snd r))"
    proof (rule fold_preserves)
      fix c s
      assume "c \<in> set cs" "fe_inv s"
      then show "fe_inv (fe_find_forms_in_node config describe h1_text h1_node section_visits (fst r) c s)"
        by (rule "2.IH"[OF Some])
    next
      show "fe_inv (snd r)" by (rule r)
    qed
    then show ?thesis using Some by simp
  qed
qed

lemma fe_process_h1_inv:
  "fe_inv st \<Longrightarrow> fe_inv (fe_process_h1 config describe h1_node st)"
  unfolding fe_process_h1_def Let_def by (rule fe_find_forms_in_node_inv)

lemma forms_with_corrections_distinct:
  "distinct (map triple_key (extract_forms_with_corrections describe data config))"
proof -
  have "fe_inv (fold (\<lambda>h1_node st. fe_process_h1 config describe h1_node st)
                  (gather_h1_sections data) \<lparr>fe_results = [], fe_seen_forms = {}\<rparr>)"
  proof (rule fold_preserves)
    fix c s
    assume "c \<in> set (gather_h1_sections data)" "fe_inv s"
    then show "fe_inv (fe_process_h1 config describe c s)"
      by (simp add: fe_process_h1_inv)
  next
    show "fe_inv \<lparr>fe_results = [], fe_seen_forms = {}\<rparr>"
      by (simp add: fe_inv_def)
  qed
  then show ?thesis
    by (simp add: fe_inv_def extract_forms_with_corrections_def)
qed

definition dedup_inv :: "item list \<times> (string \<times> string) set \<Rightarrow> bool" where
  "dedup_inv st = (distinct (map item_key (fst st)) \<and> snd st = set (map item_key (fst st)))"

lemma dedup_step_inv: "dedup_inv st \<Longrightarrow> dedup_inv (dedup_step it st)"
  by (auto simp: dedup_inv_def dedup_step_def)

lemma items_from_form_distinct:
  "distinct (map item_key (extract_items_from_form scan form_node))"
proof -
  have "dedup_inv (fold dedup_step (scan form_node) ([], {}))"
  proof (rule fold_preserves)
    fix c s
    assume "c \<in> set (scan form_node)" "dedup_inv s"
    then show "dedup_inv (dedup_step c s)"
      by (simp add: dedup_step_inv)
  next
    show "dedup_inv ([], {})"
      by (simp add: dedup_inv_def)
  qed
  then show ?thesis
    by (simp add: dedup_inv_def extract_items_from_form_def)
qed

text \<open>
  C1.  For every document, configuration and way of filling the other columns, no two
  rows of \<^verbatim>\<open>extract_forms_with_corrections\<close> share the triple (Form Label, Form Name,
  visits string); and for every form node and every row scan, no two entries of
  \<^verbatim>\<open>extract_items_from_form\<close> share the pair (Item Name, Item Group).
\<close>

theorem dedup_invariant:
  "distinct (map triple_key (extract_forms_with_corrections describe data config))
   \<and> distinct (map item_key (extract_items_from_form scan form_node))"
  by (simp add: forms_with_corrections_distinct items_from_form_distinct)

text \<open>
  In the example three nodes named \<^verbatim>\<open>[DEMOG]\<close> stand under one label: the first two
  list the visits V1 and V2, the third lists V3.  Two rows are kept.  The example scan
  yields the item (Pulse, Vitals) twice and (Pulse, Notes) once; two entries are kept.
\<close>

theorem dedup_invariant_witness:
  "(distinct (map triple_key (extract_forms_with_corrections example_describe example_visits_tree default_fe_config))
    \<and> distinct (map item_key (extract_items_from_form example_scan NotDict)))
   \<and> map triple_key (extract_forms_with_corrections example_describe example_visits_tree default_fe_config)
       = [(''Demographics'', ''[DEMOG]'', ''V1, V2''), (''Demographics'', ''[DEMOG]'', ''V3'')]
   \<and> map item_key (extract_items_from_form example_scan NotDict)
       = [(''Pulse'', ''Vitals''), (''Pulse'', ''Notes'')]"
proof -
  have a: "map triple_key (extract_forms_with_corrections example_describe example_visits_tree default_fe_config)
       = [(''Demographics'', ''[DEMOG]'', ''V1, V2''), (''Demographics'', ''[DEMOG]'', ''V3'')]"
    by code_simp
  have b: "map item_key (extract_items_from_form example_scan NotDict)
       = [(''Pulse'', ''Vitals''), (''Pulse'', ''Notes'')]"
    by code_simp
  have d: "distinct (map triple_key (extract_forms_with_corrections example_describe example_visits_tree default_fe_config))
    \<and> distinct (map item_key (extract_items_from_form example_scan NotDict))"
    by (rule dedup_invariant)
  show ?thesis
    by (rule conjI[OF d conjI[OF a b]])
qed

subsection \<open>The repeating-group law\<close>

lemma count_item_groups:
  assumes "\<forall>j\<in>set items. strip (Item_Group j) = Item_Group j"
    and "g \<noteq> []" and "g \<noteq> ''NaN''"
  shows "count_list (item_groups_of items) g = length (filter (\<lambda>j. Item_Group j = g) items)"
  using assms by (induction items) (auto simp: item_groups_of_def)

text \<open>The text \<^verbatim>\<open>get_text\<close> returns carries no white space at either end.\<close>

lemma dropWhile_fix: "(xs = [] \<or> \<not> P (hd xs)) \<Longrightarrow> dropWhile P xs = xs"
  by (cases xs) auto

lemma strip_idem: "strip (strip s) = strip s"
proof -
  define a where "a = dropWhile is_space s"
  define b where "b = dropWhile is_space (rev a)"
  have sb: "strip s = rev b"
    by (simp add: strip_def a_def b_def)
  have b_fix: "dropWhile is_space b = b"
    by (simp add: b_def dropWhile_idem)
  have "rev a = takeWhile is_space (rev a) @ b"
    by (simp add: b_def)
  then have a_eq: "a = rev b @ rev (takeWhile is_space (rev a))"
    by (metis rev_append rev_rev_ident)
  have rb: "dropWhile is_space (rev b) = rev b"
  proof (cases "b = []")
    case True
    then show ?thesis by simp
  next
    case False
    then have nb: "rev b \<noteq> []" by simp
    then have hd_eq: "hd (rev b) = hd a"
      using a_eq by (metis hd_append2)
    have "a \<noteq> []"
      using a_eq nb by (metis append_is_Nil_conv)
    then have "\<not> is_space (hd a)"
      unfolding a_def by (rule hd_dropWhile)
    then show ?thesis
      using hd_eq by (intro dropWhile_fix) simp
  qed
  show ?thesis
    unfolding sb by (simp add: strip_def rb b_fix)
qed

lemma get_text_stripped: "strip (get_text nd) = get_text nd"
proof (induction nd rule: get_text.induct)
  case 1
  then show ?case by (simp add: strip_def)
next
  case (2 n t p cs)
  show ?case
  proof (cases "strip t \<noteq> []")
    case True
    then show ?thesis by (simp add: strip_idem)
  next
    case False
    have "strip (first_nonempty (map get_text cs)) = first_nonempty (map get_text cs)"
    proof (cases "filter (\<lambda>t. t \<noteq> []) (map get_text cs)")
      case Nil
      then show ?thesis by (simp add: first_nonempty_def strip_def)
    next
      case (Cons a as)
      then have "a \<in> set (map get_text cs)"
        by (metis filter_is_subset list.set_intros(1) subsetD)
      then obtain c where "c \<in> set cs" "a = get_text c" by auto
      then have "strip a = a" using "2.IH" False by simp
      then show ?thesis using Cons by (simp add: first_nonempty_def)
    qed
    then show ?thesis using False by simp
  qed
qed

text \<open>
  The groups of an extracted item list: the row scan assigns the empty string or a result
  of \<^verbatim>\<open>get_text\<close>, and the loop that removes duplicates keeps entries of the scan.
\<close>

lemma extracted_items_subset:
  "set (extract_items_from_form scan form_node) \<subseteq> set (scan form_node)"
proof -
  have "set (fst (fold dedup_step (scan form_node) ([], {}))) \<subseteq> set (scan form_node)"
  proof (rule fold_preserves)
    fix c and s :: "item list \<times> (string \<times> string) set"
    assume "c \<in> set (scan form_node)" "set (fst s) \<subseteq> set (scan form_node)"
    then show "set (fst (dedup_step c s)) \<subseteq> set (scan form_node)"
      by (simp add: dedup_step_def)
  next
    show "set (fst ([], {})) \<subseteq> set (scan form_node)"
      by simp
  qed
  then show ?thesis
    by (simp add: extract_items_from_form_def)
qed

lemma extracted_groups_stripped:
  assumes "\<forall>j\<in>set (scan form_node). Item_Group j = [] \<or> (\<exists>c. Item_Group j = get_text c)"
  shows "\<forall>j\<in>set (extract_items_from_form scan form_node). strip (Item_Group j) = Item_Group j"
proof
  fix j
  assume "j \<in> set (extract_items_from_form scan form_node)"
  then have "j \<in> set (scan form_node)"
    using extracted_items_subset by blast
  then have "Item_Group j = [] \<or> (\<exists>c. Item_Group j = get_text c)"
    using assms by blast
  then show "strip (Item_Group j) = Item_Group j"
  proof
    assume "Item_Group j = []"
    then show ?thesis by (simp add: strip_def)
  next
    assume "\<exists>c. Item_Group j = get_text c"
    then obtain c where "Item_Group j = get_text c" ..
    then show ?thesis by (simp add: get_text_stripped)
  qed
qed

text \<open>An item without a group: the empty string, or the text \<^verbatim>\<open>NaN\<close> that stands for it.\<close>

lemma no_group_flag:
  assumes "Item_Group it = [] \<or> Item_Group it = ''NaN''"
  shows "repeating_flag_of items it = ''N'' \<and> repeat_maximum_of items it = 50"
  using assms
  by (auto simp: repeating_flag_of_def repeat_maximum_of_def get_item_group_repeating_flag_def
      get_repeat_maximum_def item_group_value_def)

lemma group_flag:
  assumes "\<forall>j\<in>set items. strip (Item_Group j) = Item_Group j"
    and "it \<in> set items"
    and "Item_Group it \<noteq> []"
    and "Item_Group it \<noteq> ''NaN''"
  shows "(group_size items it = 1 \<longrightarrow>
            repeating_flag_of items it = ''N'' \<and> repeat_maximum_of items it = 50)
       \<and> (1 < group_size items it \<longrightarrow>
            repeating_flag_of items it = ''Y'' \<and> repeat_maximum_of items it = group_size items it)"
proof -
  have cnt: "count_list (item_groups_of items) (Item_Group it) = group_size items it"
    unfolding group_size_def by (rule count_item_groups[OF assms(1,3,4)])
  have mem: "Item_Group it \<in> set (item_groups_of items) \<longleftrightarrow> 0 < group_size items it"
    using count_list_0_iff[of "item_groups_of items" "Item_Group it"] cnt by auto
  have s: "strip (Item_Group it) = Item_Group it"
    using assms(1,2) by blast
  show ?thesis
    using assms(3,4) cnt mem s
    by (auto simp: repeating_flag_of_def repeat_maximum_of_def analyze_item_groups_per_form_def
        get_item_group_repeating_flag_def get_repeat_maximum_def item_group_value_def Let_def)
qed

text \<open>
  C5.  The item record of the specification has two values for an item without a group,
  the empty string and the text \<^verbatim>\<open>NaN\<close>; every other value is an item group.  Let the
  groups of the item list be free of white space at their ends, as they are in every list
  of the item extractor (\<open>extracted_groups_stripped\<close>).  Then an item whose group is carried
  by no other item gets flag N and maximum 50, and an item whose group is carried by
  k > 1 items gets flag Y and maximum k.  An item without a group gets flag N and maximum
  50, however many items are without one.
\<close>

theorem repeating_group_law:
  assumes "\<forall>j\<in>set items. strip (Item_Group j) = Item_Group j"
    and "it \<in> set items"
  shows "(Item_Group it \<noteq> [] \<and> Item_Group it \<noteq> ''NaN'' \<and> group_size items it = 1 \<longrightarrow>
            repeating_flag_of items it = ''N'' \<and> repeat_maximum_of items it = 50)
       \<and> (Item_Group it \<noteq> [] \<and> Item_Group it \<noteq> ''NaN'' \<and> 1 < group_size items it \<longrightarrow>
            repeating_flag_of items it = ''Y'' \<and> repeat_maximum_of items it = group_size items it)
       \<and> (Item_Group it = [] \<or> Item_Group it = ''NaN'' \<longrightarrow>
            repeating_flag_of items it = ''N'' \<and> repeat_maximum_of items it = 50)"
  using group_flag[OF assms] no_group_flag[of it items] by blast

text \<open>
  In the first example two items carry the group \<^verbatim>\<open>Vitals\<close> and one the group
  \<^verbatim>\<open>Notes\<close>; in the second both items have the text \<^verbatim>\<open>NaN\<close> for a group.
\<close>

theorem repeating_group_law_witness:
  "group_size example_group_items (example_group_items ! 0) = 2
   \<and> repeating_flag_of example_group_items (example_group_items ! 0) = ''Y''
   \<and> repeat_maximum_of example_group_items (example_group_items ! 0) = 2
   \<and> group_size example_group_items (example_group_items ! 2) = 1
   \<and> repeating_flag_of example_group_items (example_group_items ! 2) = ''N''
   \<and> repeat_maximum_of example_group_items (example_group_items ! 2) = 50
   \<and> group_size example_nan_items (example_nan_items ! 0) = 2
   \<and> repeating_flag_of example_nan_items (example_nan_items ! 0) = ''N''
   \<and> repeat_maximum_of example_nan_items (example_nan_items ! 0) = 50"
proof -
  have stripped: "\<forall>j\<in>set example_group_items. strip (Item_Group j) = Item_Group j"
    and stripped_nan: "\<forall>j\<in>set example_nan_items. strip (Item_Group j) = Item_Group j"
    by code_simp+
  have m0: "example_group_items ! 0 \<in> set example_group_items"
    and m2: "example_group_items ! 2 \<in> set example_group_items"
    and n0: "example_nan_items ! 0 \<in> set example_nan_items"
    by (simp_all add: example_group_items_def example_nan_items_def)
  have g0: "Item_Group (example_group_items ! 0) \<noteq> []" "Item_Group (example_group_items ! 0) \<noteq> ''NaN''"
    and g2: "Item_Group (example_group_items ! 2) \<noteq> []" "Item_Group (example_group_items ! 2) \<noteq> ''NaN''"
    and gn: "Item_Group (example_nan_items ! 0) = ''NaN''"
    by (simp_all add: example_group_items_def example_nan_items_def)
  have s0: "group_size example_group_items (example_group_items ! 0) = 2"
    and s2: "group_size example_group_items (example_group_items ! 2) = 1"
    and sn: "group_size example_nan_items (example_nan_items ! 0) = 2"
    by (simp_all add: example_group_items_def example_nan_items_def group_size_def)
  show ?thesis
    using repeating_group_law[OF stripped m0] repeating_group_law[OF stripped m2]
      repeating_group_law[OF stripped_nan n0] g0 g2 gn s0 s2 sn
    by simp
qed

subsection \<open>The placeholder row of a form without items\<close>

lemma filter_concat_none:
  assumes "\<And>g r. g \<in> set gs \<Longrightarrow> r \<in> set (rows g) \<Longrightarrow> kr r = k g"
    and "x \<notin> k ` set gs"
  shows "filter (\<lambda>r. kr r = x) (concat (map rows gs)) = []"
  using assms by (induction gs) (auto simp: filter_empty_conv)

lemma filter_concat_one:
  assumes "distinct (map k fs)" and "f \<in> set fs"
    and "\<And>g r. g \<in> set fs \<Longrightarrow> r \<in> set (rows g) \<Longrightarrow> kr r = k g"
  shows "filter (\<lambda>r. kr r = k f) (concat (map rows fs)) = rows f"
  using assms
proof (induction fs)
  case Nil
  then show ?case by simp
next
  case (Cons g gs)
  have keyed: "\<And>h r. h \<in> set gs \<Longrightarrow> r \<in> set (rows h) \<Longrightarrow> kr r = k h"
    using Cons.prems(3) by simp
  show ?case
  proof (cases "k g = k f")
    case True
    then have "k f \<notin> k ` set gs" using Cons.prems(1) by auto
    then have rest: "filter (\<lambda>r. kr r = k f) (concat (map rows gs)) = []"
      using keyed by (intro filter_concat_none) auto
    have "f \<notin> set gs" using \<open>k f \<notin> k ` set gs\<close> by auto
    then have "g = f" using Cons.prems(2) by auto
    moreover have "filter (\<lambda>r. kr r = k f) (rows f) = rows f"
      using Cons.prems(2,3) by (intro filter_True) auto
    ultimately show ?thesis using rest by simp
  next
    case False
    then have "f \<in> set gs" using Cons.prems(2) by auto
    then have ih: "filter (\<lambda>r. kr r = k f) (concat (map rows gs)) = rows f"
      using Cons.IH Cons.prems(1) keyed by simp
    have "filter (\<lambda>r. kr r = k f) (rows g) = []"
      using Cons.prems(3)[of g] False by (auto simp: filter_empty_conv)
    then show ?thesis using ih by simp
  qed
qed

lemma form_item_rows_key:
  "r \<in> set (form_item_rows rules scan form) \<Longrightarrow> pair_key r = pair_key form"
  by (auto simp: form_item_rows_def item_row_def pair_key_def Let_def)

lemma placeholder_rows:
  assumes "extract_items_from_form scan (Form_Node form) = []"
  shows "form_item_rows rules scan form = [placeholder_row form]"
  using assms
  by (simp add: form_item_rows_def assign_item_order_def placeholder_item_def item_row_def
      placeholder_row_def item_group_value_def repeating_flag_of_def repeat_maximum_of_def
      get_item_group_repeating_flag_def get_repeat_maximum_def get_all_lbody_values_def
      determine_data_type_def calculate_field_length_def check_query_future_date_def
      check_required_field_def Let_def)

text \<open>
  C9.  A form of \<^verbatim>\<open>extract_forms_cleaned\<close> for which \<^verbatim>\<open>extract_items_from_form\<close>
  returns no item contributes exactly one row, the placeholder row (empty Item Label,
  Item Group NaN, Item group Repeating N, Repeat Maximum 50, Item Order 1, Data type
  Text, Required N), and that row is the only row of the output that carries the form's
  label and name.
\<close>

theorem placeholder_row_for_empty_form:
  assumes "form \<in> set (extract_forms_cleaned data)"
    and "extract_items_from_form scan (Form_Node form) = []"
  shows "form_item_rows rules scan form = [placeholder_row form]
       \<and> filter (\<lambda>r. pair_key r = pair_key form) (prepare_study_specific_forms_rows rules scan data)
           = [placeholder_row form]
       \<and> Item_Label (placeholder_row form) = [] \<and> Row_Item_Group (placeholder_row form) = ''NaN''
       \<and> Item_group_Repeating (placeholder_row form) = ''N'' \<and> Repeat_Maximum (placeholder_row form) = 50
       \<and> Row_Item_Order (placeholder_row form) = 1 \<and> Data_type (placeholder_row form) = ''Text''
       \<and> Row_Required (placeholder_row form) = ''N''"
proof -
  have one: "form_item_rows rules scan form = [placeholder_row form]"
    using assms(2) by (rule placeholder_rows)
  have "filter (\<lambda>r. pair_key r = pair_key form)
          (concat (map (form_item_rows rules scan) (extract_forms_cleaned data)))
        = form_item_rows rules scan form"
    using forms_cleaned_distinct assms(1) form_item_rows_key by (rule filter_concat_one)
  then show ?thesis
    using one by (simp add: prepare_study_specific_forms_rows_def placeholder_row_def)
qed

lemma example_forms_tree_forms:
  "extract_forms_cleaned example_forms_tree =
     [\<lparr>Form_Label = ''Demographics'', Form_Name = ''[DEMOG]'', H1_Text = ''Section One'',
       Form_Node = Node ''P'' ''[DEMOG]'' [] [],
       Parent_H1_Node = hd (nchildren example_forms_tree)\<rparr>]"
  by code_simp

theorem placeholder_row_for_empty_form_witness:
  "filter (\<lambda>r. pair_key r = (''Demographics'', ''[DEMOG]''))
     (prepare_study_specific_forms_rows example_rules (\<lambda>nd. []) example_forms_tree)
   = [\<lparr>Form_Label = ''Demographics'', Form_Name = ''[DEMOG]'',
       Row_Item_Group = ''NaN'', Item_group_Repeating = ''N'', Repeat_Maximum = 50,
       Row_Item_Order = 1, Item_Label = [], Data_type = ''Text'', Field_Length = [],
       Precision = [], Codelist = [], Number_Range = [], Query_Future_Date = [],
       Row_Required = ''N'', Open_Query = []\<rparr>]"
proof -
  let ?form = "hd (extract_forms_cleaned example_forms_tree)"
  have mem: "?form \<in> set (extract_forms_cleaned example_forms_tree)"
    by (simp add: example_forms_tree_forms)
  have none: "extract_items_from_form (\<lambda>nd. []) (Form_Node ?form) = []"
    by (simp add: extract_items_from_form_def)
  have key: "pair_key ?form = (''Demographics'', ''[DEMOG]'')"
    by (simp add: example_forms_tree_forms pair_key_def)
  show ?thesis
    using placeholder_row_for_empty_form[OF mem none, of example_rules] key
    by (simp add: placeholder_row_def example_forms_tree_forms)
qed

subsection \<open>Visit normalization\<close>

lemma str_of_code_points: "str_of (code_points s) = s"
  by (induction s) (simp_all add: str_of_def code_points_def cp_def)

lemma code_points_inj: "code_points s = code_points t \<Longrightarrow> s = t"
  using str_of_code_points by metis

lemma listed_upper:
  assumes "u \<in> set (map code_points cs)"
  shows "str_of u \<in> set cs \<and> code_points (str_of u) = u"
proof -
  from assms obtain c where c: "c \<in> set cs" "u = code_points c" by auto
  then show ?thesis by (simp add: str_of_code_points)
qed

text \<open>A token the pattern does not match: the list is searched for its upper case.\<close>

lemma normalize_unmatched:
  assumes "re_match (vn_pattern config) False (strip t) = None"
  shows "normalize_visit_name t config =
           (if upper (strip t) \<in> set (map code_points (special_cases config))
            then Inr (Some (str_of (upper (strip t)))) else Inr None)"
  using assms by (simp add: normalize_visit_name_def)

lemma normalize_unmatched_listed:
  assumes "t \<in> set (special_cases config)"
    and "re_match (vn_pattern config) False (strip t) = None"
  shows "normalize_visit_name t config = Inr (Some t) \<longleftrightarrow> upper (strip t) = code_points t"
proof
  assume "upper (strip t) = code_points t"
  then show "normalize_visit_name t config = Inr (Some t)"
    using assms by (simp add: normalize_unmatched str_of_code_points)
next
  assume res: "normalize_visit_name t config = Inr (Some t)"
  show "upper (strip t) = code_points t"
  proof (cases "upper (strip t) \<in> set (map code_points (special_cases config))")
    case True
    then have "str_of (upper (strip t)) = t"
      using res assms(2) by (simp add: normalize_unmatched)
    then show ?thesis
      using listed_upper[OF True] by simp
  next
    case False
    then show ?thesis
      using res assms(2) by (simp add: normalize_unmatched)
  qed
qed

text \<open>A token the pattern matches: the list is searched for the upper case of the base.\<close>

lemma normalize_matched_base:
  assumes "t \<in> set (special_cases config)"
    and "rx_groups (vn_pattern config) = 2"
    and "re_match (vn_pattern config) False (strip t) = Some m"
    and "group (strip t) m 1 = Some t"
    and "upper t = code_points t"
  shows "normalize_visit_name t config = Inr (Some t)"
proof -
  have "upper t \<in> set (map code_points (special_cases config))"
    using assms(1,5) by simp
  then show ?thesis
    using assms(2-5) by (simp add: normalize_visit_name_def str_of_code_points)
qed

lemma normalize_v12_a: "normalize_visit_name ''V12 a'' default_vn_config = Inr (Some ''V12'')"
  by code_simp

lemma normalize_v12_abc: "normalize_visit_name ''V12 abc'' default_vn_config = Inr None"
  by code_simp

lemma normalize_listed_v1:
  "normalize_visit_name ''V1'' (default_vn_config\<lparr>special_cases := [''V1'']\<rparr>) = Inr (Some ''V1'')"
  by code_simp

lemma normalize_listed_v1_a:
  "normalize_visit_name ''V1 a'' (default_vn_config\<lparr>special_cases := [''V1 a'']\<rparr>) = Inr (Some ''V1'')"
  by code_simp

text \<open>
  C6, as amended.  With the default pattern and suffix length, \<^verbatim>\<open>V12 a\<close> yields
  \<^verbatim>\<open>V12\<close> and \<^verbatim>\<open>V12 abc\<close> yields no result.  For a token \<open>t\<close> of the special-case
  list of any configuration: when the visit pattern does not match the stripped token,
  \<open>t\<close> is returned unchanged exactly when the stripped token in upper case is \<open>t\<close>
  itself (the list is searched for the stripped, upper-cased token); when the pattern,
  one of two groups, matches and its base group is the whole token, written in upper case,
  \<open>t\<close> is returned unchanged as well (the list is searched for the upper-cased base).
  With the default pattern the listed token \<^verbatim>\<open>V1\<close> is returned unchanged, and the listed
  token \<^verbatim>\<open>V1 a\<close> comes back as its base \<^verbatim>\<open>V1\<close>.
\<close>

theorem normalize_visit_name_cases:
  "normalize_visit_name ''V12 a'' default_vn_config = Inr (Some ''V12'')
   \<and> normalize_visit_name ''V12 abc'' default_vn_config = Inr None
   \<and> (\<forall>config t. t \<in> set (special_cases config)
          \<and> re_match (vn_pattern config) False (strip t) = None
        \<longrightarrow> (normalize_visit_name t config = Inr (Some t) \<longleftrightarrow> upper (strip t) = code_points t))
   \<and> (\<forall>config t m. t \<in> set (special_cases config) \<and> rx_groups (vn_pattern config) = 2
          \<and> re_match (vn_pattern config) False (strip t) = Some m
          \<and> group (strip t) m 1 = Some t \<and> upper t = code_points t
        \<longrightarrow> normalize_visit_name t config = Inr (Some t))
   \<and> normalize_visit_name ''V1'' (default_vn_config\<lparr>special_cases := [''V1'']\<rparr>) = Inr (Some ''V1'')
   \<and> normalize_visit_name ''V1 a'' (default_vn_config\<lparr>special_cases := [''V1 a'']\<rparr>)
       = Inr (Some ''V1'')"
proof (intro conjI allI impI)
  show "normalize_visit_name ''V12 a'' default_vn_config = Inr (Some ''V12'')"
    by (rule normalize_v12_a)
  show "normalize_visit_name ''V12 abc'' default_vn_config = Inr None"
    by (rule normalize_v12_abc)
  show "normalize_visit_name ''V1'' (default_vn_config\<lparr>special_cases := [''V1'']\<rparr>) = Inr (Some ''V1'')"
    by (rule normalize_listed_v1)
  show "normalize_visit_name ''V1 a'' (default_vn_config\<lparr>special_cases := [''V1 a'']\<rparr>)
          = Inr (Some ''V1'')"
    by (rule normalize_listed_v1_a)
next
  fix config :: vn_config and t
  assume "t \<in> set (special_cases config)
          \<and> re_match (vn_pattern config) False (strip t) = None"
  then show "normalize_visit_name t config = Inr (Some t) \<longleftrightarrow> upper (strip t) = code_points t"
    by (intro normalize_unmatched_listed) simp_all
next
  fix config :: vn_config and t m
  assume "t \<in> set (special_cases config) \<and> rx_groups (vn_pattern config) = 2
          \<and> re_match (vn_pattern config) False (strip t) = Some m
          \<and> group (strip t) m 1 = Some t \<and> upper t = code_points t"
  then show "normalize_visit_name t config = Inr (Some t)"
    by (intro normalize_matched_base[where m = m]) simp_all
qed

lemma rand_listed:
  "''RAND'' \<in> set (special_cases (default_vn_config\<lparr>special_cases := [''SCR'', ''RAND'']\<rparr>))"
  by simp

lemma rand_not_a_visit:
  "re_match (vn_pattern (default_vn_config\<lparr>special_cases := [''SCR'', ''RAND'']\<rparr>)) False
     (strip ''RAND'') = None"
  by code_simp

lemma rand_upper: "upper (strip ''RAND'') = code_points ''RAND''"
  by code_simp

theorem normalize_visit_name_cases_witness:
  "normalize_visit_name ''RAND'' (default_vn_config\<lparr>special_cases := [''SCR'', ''RAND'']\<rparr>)
     = Inr (Some ''RAND'')"
  using normalize_visit_name_cases rand_listed rand_not_a_visit rand_upper
  by blast

text \<open>
  The claim as stated fails for a list entry in lower case and for a list entry with a
  suffix, and in the default configuration the list is empty, so that \<^verbatim>\<open>RAND\<close> yields no
  result there.
\<close>

theorem normalize_visit_name_counterexample:
  "normalize_visit_name ''rand'' (default_vn_config\<lparr>special_cases := [''rand'']\<rparr>) = Inr None
   \<and> normalize_visit_name ''V1 a'' (default_vn_config\<lparr>special_cases := [''V1 a'']\<rparr>)
       = Inr (Some ''V1'')
   \<and> normalize_visit_name ''RAND'' default_vn_config = Inr None"
  by code_simp

subsection \<open>Duplicate visit headers\<close>

lemma disambiguate_unfold:
  "disambiguate b v c seen =
     (if v \<in> set seen then disambiguate b (suffixed b c) (Suc c) seen else v)"
  by (subst disambiguate.simps) (rule refl)

lemma disambiguate_fresh: "disambiguate b v c seen \<notin> set seen"
proof (induction b v c seen rule: disambiguate.induct)
  case (1 b v c seen)
  show ?case
  proof (cases "v \<in> set seen")
    case True
    then show ?thesis using "1.IH" by (subst disambiguate_unfold) simp
  next
    case False
    then show ?thesis by (subst disambiguate_unfold) simp
  qed
qed

lemma disambiguate_shape:
  "disambiguate b v c seen = v \<or> (\<exists>k\<ge>c. disambiguate b v c seen = suffixed b k)"
proof (induction b v c seen rule: disambiguate.induct)
  case (1 b v c seen)
  show ?case
  proof (cases "v \<in> set seen")
    case True
    then have eq: "disambiguate b v c seen = disambiguate b (suffixed b c) (Suc c) seen"
      by (subst disambiguate_unfold) simp
    from "1.IH"[OF True]
    have "\<exists>k\<ge>c. disambiguate b (suffixed b c) (Suc c) seen = suffixed b k"
      by (metis Suc_leD le_refl)
    then show ?thesis by (simp add: eq)
  next
    case False
    then show ?thesis by (subst disambiguate_unfold) simp
  qed
qed

lemma disambiguate_taken:
  assumes "v \<in> set seen"
  shows "\<exists>k\<ge>c. disambiguate b v c seen = suffixed b k"
proof -
  have eq: "disambiguate b v c seen = disambiguate b (suffixed b c) (Suc c) seen"
    using assms by (subst disambiguate_unfold) simp
  from disambiguate_shape[of b "suffixed b c" "Suc c" seen]
  have "\<exists>k\<ge>c. disambiguate b (suffixed b c) (Suc c) seen = suffixed b k"
    by (metis Suc_leD le_refl)
  then show ?thesis by (simp add: eq)
qed

lemma disambiguate_free: "v \<notin> set seen \<Longrightarrow> disambiguate b v c seen = v"
  by (subst disambiguate_unfold) simp

lemma fresh_names_length: "length (fresh_names bs seen) = length bs"
  by (induction bs arbitrary: seen) auto

lemma fresh_names_disjoint: "set (fresh_names bs seen) \<inter> set seen = {}"
proof (induction bs arbitrary: seen)
  case Nil
  then show ?case by simp
next
  case (Cons b bs)
  have "disambiguate b b 1 seen \<notin> set seen" by (rule disambiguate_fresh)
  moreover have "set (fresh_names bs (seen @ [disambiguate b b 1 seen]))
                   \<inter> set (seen @ [disambiguate b b 1 seen]) = {}"
    by (rule Cons.IH)
  ultimately show ?case by auto
qed

lemma fresh_names_distinct: "distinct (fresh_names bs seen)"
proof (induction bs arbitrary: seen)
  case Nil
  then show ?case by simp
next
  case (Cons b bs)
  have "set (fresh_names bs (seen @ [disambiguate b b 1 seen]))
          \<inter> set (seen @ [disambiguate b b 1 seen]) = {}"
    by (rule fresh_names_disjoint)
  then have "disambiguate b b 1 seen \<notin> set (fresh_names bs (seen @ [disambiguate b b 1 seen]))"
    by auto
  then show ?case using Cons.IH by simp
qed

lemma fresh_names_base: "list_all2 names_base (fresh_names bs seen) bs"
proof (induction bs arbitrary: seen)
  case Nil
  then show ?case by simp
next
  case (Cons b bs)
  have "names_base (disambiguate b b 1 seen) b"
    using disambiguate_shape[of b b 1 seen] by (auto simp: names_base_def)
  then show ?case using Cons.IH by simp
qed

lemma fresh_names_suffix:
  assumes "m < length bs"
    and "bs ! m \<in> set seen \<or> (\<exists>n<m. bs ! n = bs ! m)"
  shows "has_numeric_suffix (fresh_names bs seen ! m) (bs ! m)"
  using assms
proof (induction bs arbitrary: seen m)
  case Nil
  then show ?case by simp
next
  case (Cons b bs)
  let ?v = "disambiguate b b 1 seen"
  have taken: "b \<in> set (seen @ [?v])"
  proof (cases "b \<in> set seen")
    case True
    then show ?thesis by simp
  next
    case False
    then have "?v = b" by (rule disambiguate_free)
    then show ?thesis by simp
  qed
  show ?case
  proof (cases m)
    case 0
    then have "b \<in> set seen" using Cons.prems(2) by simp
    then have "\<exists>k\<ge>1. ?v = suffixed b k" by (rule disambiguate_taken)
    then show ?thesis using 0 by (simp add: has_numeric_suffix_def)
  next
    case (Suc m')
    have len: "m' < length bs" using Cons.prems(1) Suc by simp
    have "bs ! m' \<in> set (seen @ [?v]) \<or> (\<exists>n<m'. bs ! n = bs ! m')"
    proof -
      from Cons.prems(2) Suc
      consider "bs ! m' \<in> set seen" | n where "n < Suc m'" "(b # bs) ! n = bs ! m'"
        by auto
      then show ?thesis
      proof cases
        case 1
        then show ?thesis by simp
      next
        case 2
        show ?thesis
        proof (cases n)
          case 0
          then have "bs ! m' = b" using 2 by simp
          then show ?thesis using taken by simp
        next
          case (Suc n')
          then show ?thesis using 2 by auto
        qed
      qed
    qed
    then have "has_numeric_suffix (fresh_names bs (seen @ [?v]) ! m') (bs ! m')"
      using Cons.IH len by blast
    then show ?thesis using Suc by simp
  qed
qed

lemma fold_add_visit:
  "fold add_visit ids st =
     \<lparr>column_to_visit = column_to_visit st @ zip (map fst ids) (fresh_names (map snd ids) (seen_visits st)),
      visit_order = visit_order st @ fresh_names (map snd ids) (seen_visits st),
      seen_visits = seen_visits st @ fresh_names (map snd ids) (seen_visits st)\<rparr>"
proof (induction ids arbitrary: st)
  case Nil
  then show ?case by simp
next
  case (Cons ib ids)
  have "fold add_visit (ib # ids) st = fold add_visit ids (add_visit ib st)"
    by simp
  also have "\<dots> =
     \<lparr>column_to_visit = column_to_visit (add_visit ib st)
          @ zip (map fst ids) (fresh_names (map snd ids) (seen_visits (add_visit ib st))),
      visit_order = visit_order (add_visit ib st)
          @ fresh_names (map snd ids) (seen_visits (add_visit ib st)),
      seen_visits = seen_visits (add_visit ib st)
          @ fresh_names (map snd ids) (seen_visits (add_visit ib st))\<rparr>"
    by (rule Cons.IH)
  also have "\<dots> =
     \<lparr>column_to_visit = column_to_visit st
          @ zip (map fst (ib # ids)) (fresh_names (map snd (ib # ids)) (seen_visits st)),
      visit_order = visit_order st @ fresh_names (map snd (ib # ids)) (seen_visits st),
      seen_visits = seen_visits st @ fresh_names (map snd (ib # ids)) (seen_visits st)\<rparr>"
    by (simp add: add_visit_def Let_def)
  finally show ?case .
qed

lemma fold_err_add_visit_column:
  assumes "fold_err (add_visit_column patterns) icells st = Inr st'"
  shows "\<exists>ids. visit_cells patterns icells = Inr ids \<and> st' = fold add_visit ids st"
  using assms
proof (induction icells arbitrary: st)
  case Nil
  then show ?case by simp
next
  case (Cons icell icells)
  from Cons.prems obtain r where r: "extract_complete_visit_identifier (snd icell) patterns = Inr r"
    by (auto simp: add_visit_column_def split: sum.splits)
  let ?st1 = "if truthy r then add_visit (fst icell, the_str r) st else st"
  have step: "add_visit_column patterns icell st = Inr ?st1"
    using r by (simp add: add_visit_column_def)
  then have "fold_err (add_visit_column patterns) icells ?st1 = Inr st'"
    using Cons.prems by simp
  then obtain ids where ids: "visit_cells patterns icells = Inr ids" "st' = fold add_visit ids ?st1"
    using Cons.IH by blast
  show ?case
    using r ids by (cases "truthy r") simp_all
qed

lemma visit_cells_columns:
  assumes "visit_cells patterns icells = Inr ids" and "sorted_wrt (<) (map fst icells)"
  shows "sorted_wrt (<) (map fst ids) \<and> set (map fst ids) \<subseteq> set (map fst icells)"
  using assms
proof (induction icells arbitrary: ids)
  case Nil
  then show ?case by simp
next
  case (Cons icell icells)
  from Cons.prems(1) obtain r ids' where
    r: "extract_complete_visit_identifier (snd icell) patterns = Inr r"
    and ids': "visit_cells patterns icells = Inr ids'"
    and ids: "ids = (if truthy r then (fst icell, the_str r) # ids' else ids')"
    by (auto split: sum.splits)
  have ih: "sorted_wrt (<) (map fst ids') \<and> set (map fst ids') \<subseteq> set (map fst icells)"
    using Cons.IH[OF ids'] Cons.prems(2) by simp
  have less: "fst icell < j" if "j \<in> set (map fst ids')" for j
  proof -
    from that have "j \<in> set (map fst icells)" using ih by blast
    then show ?thesis using Cons.prems(2) by auto
  qed
  show ?case
  proof (cases "truthy r")
    case True
    then have "ids = (fst icell, the_str r) # ids'" using ids by simp
    then show ?thesis using ih less by auto
  next
    case False
    then have "ids = ids'" using ids by simp
    then show ?thesis using ih by auto
  qed
qed

lemma example_header_columns:
  "build_visit_columns [visit_id_pattern] example_header_row =
     Inr \<lparr>column_to_visit = [(1, ''V1''), (2, ''V1_1''), (3, ''V2'')],
          visit_order = [''V1'', ''V1_1'', ''V2''],
          seen_visits = [''V1'', ''V1_1'', ''V2'']\<rparr>"
  by code_simp

text \<open>
  C7.  Let the loop over the header row end without an exception, and let \<open>ids\<close> be the
  cells that hold a visit identifier, with their columns.  Then the column map has these
  columns, in ascending order, and its names are the visit list; every name is the
  identifier of its cell or that identifier with \<^verbatim>\<open>_k\<close> appended (k from 1); no name occurs
  twice; and every cell whose identifier already stood in an earlier cell gets a name
  with such a suffix.  With the pattern \<^verbatim>\<open>\bV\d+[A-Z]*\b\<close> the row Procedure, V1, V1, V2
  gives the visit list V1, V1\_1, V2.
\<close>

theorem duplicate_visit_headers:
  "(\<forall>patterns visit_row st.
      build_visit_columns patterns visit_row = Inr st \<longrightarrow>
      (\<exists>ids. visit_cells patterns (enumerate 0 visit_row) = Inr ids
         \<and> map fst (column_to_visit st) = map fst ids
         \<and> sorted_wrt (<) (map fst (column_to_visit st))
         \<and> map snd (column_to_visit st) = visit_order st
         \<and> list_all2 names_base (visit_order st) (map snd ids)
         \<and> distinct (visit_order st)
         \<and> (\<forall>m<length ids. (\<exists>n<m. snd (ids ! n) = snd (ids ! m))
               \<longrightarrow> has_numeric_suffix (visit_order st ! m) (snd (ids ! m)))))
   \<and> map_sum id visit_order (build_visit_columns [visit_id_pattern] example_header_row)
       = Inr [''V1'', ''V1_1'', ''V2'']"
proof (intro conjI allI impI)
  fix patterns visit_row st
  assume run: "build_visit_columns patterns visit_row = Inr st"
  let ?init = "\<lparr>column_to_visit = [], visit_order = [], seen_visits = []\<rparr>"
  from run obtain ids where ids: "visit_cells patterns (enumerate 0 visit_row) = Inr ids"
    and st: "st = fold add_visit ids ?init"
    unfolding build_visit_columns_def using fold_err_add_visit_column by blast
  let ?names = "fresh_names (map snd ids) []"
  have c2v: "column_to_visit st = zip (map fst ids) ?names"
    and vo: "visit_order st = ?names"
    by (simp_all add: st fold_add_visit)
  have len: "length ?names = length ids"
    by (simp add: fresh_names_length)
  have cols: "map fst (column_to_visit st) = map fst ids"
    by (simp add: c2v len)
  have sorted: "sorted_wrt (<) (map fst ids)"
    using visit_cells_columns[OF ids] by (simp add: map_fst_enumerate)
  have suffix: "\<forall>m<length ids. (\<exists>n<m. snd (ids ! n) = snd (ids ! m))
                  \<longrightarrow> has_numeric_suffix (visit_order st ! m) (snd (ids ! m))"
  proof (intro allI impI)
    fix m
    assume m: "m < length ids" and rep: "\<exists>n<m. snd (ids ! n) = snd (ids ! m)"
    have "has_numeric_suffix (fresh_names (map snd ids) [] ! m) (map snd ids ! m)"
    proof (rule fresh_names_suffix)
      show "m < length (map snd ids)" using m by simp
      show "map snd ids ! m \<in> set [] \<or> (\<exists>n<m. map snd ids ! n = map snd ids ! m)"
        using rep m by auto
    qed
    then show "has_numeric_suffix (visit_order st ! m) (snd (ids ! m))"
      using m by (simp add: vo)
  qed
  show "\<exists>ids. visit_cells patterns (enumerate 0 visit_row) = Inr ids
         \<and> map fst (column_to_visit st) = map fst ids
         \<and> sorted_wrt (<) (map fst (column_to_visit st))
         \<and> map snd (column_to_visit st) = visit_order st
         \<and> list_all2 names_base (visit_order st) (map snd ids)
         \<and> distinct (visit_order st)
         \<and> (\<forall>m<length ids. (\<exists>n<m. snd (ids ! n) = snd (ids ! m))
               \<longrightarrow> has_numeric_suffix (visit_order st ! m) (snd (ids ! m)))"
  proof (intro exI[of _ ids] conjI)
    show "visit_cells patterns (enumerate 0 visit_row) = Inr ids" by (rule ids)
    show "map fst (column_to_visit st) = map fst ids" by (rule cols)
    show "sorted_wrt (<) (map fst (column_to_visit st))" using sorted by (simp add: cols)
    show "map snd (column_to_visit st) = visit_order st" by (simp add: c2v vo len)
    show "list_all2 names_base (visit_order st) (map snd ids)"
      by (simp add: vo fresh_names_base)
    show "distinct (visit_order st)" by (simp add: vo fresh_names_distinct)
    show "\<forall>m<length ids. (\<exists>n<m. snd (ids ! n) = snd (ids ! m))
               \<longrightarrow> has_numeric_suffix (visit_order st ! m) (snd (ids ! m))"
      by (rule suffix)
  qed
next
  show "map_sum id visit_order (build_visit_columns [visit_id_pattern] example_header_row)
       = Inr [''V1'', ''V1_1'', ''V2'']"
    by (simp add: example_header_columns)
qed

lemma example_header_cells:
  "visit_cells [visit_id_pattern] (enumerate 0 example_header_row)
     = Inr [(1, ''V1''), (2, ''V1''), (3, ''V2'')]"
  by code_simp

theorem duplicate_visit_headers_witness:
  "has_numeric_suffix ''V1_1'' ''V1'' \<and> distinct [''V1'', ''V1_1'', ''V2'']
   \<and> list_all2 names_base [''V1'', ''V1_1'', ''V2''] [''V1'', ''V1'', ''V2'']"
proof -
  let ?st = "\<lparr>column_to_visit = [(1, ''V1''), (2, ''V1_1''), (3, ''V2'')],
              visit_order = [''V1'', ''V1_1'', ''V2''],
              seen_visits = [''V1'', ''V1_1'', ''V2'']\<rparr>"
  have run: "build_visit_columns [visit_id_pattern] example_header_row = Inr ?st"
    by (rule example_header_columns)
  from duplicate_visit_headers[THEN conjunct1, rule_format, OF run]
  obtain ids where cells: "visit_cells [visit_id_pattern] (enumerate 0 example_header_row) = Inr ids"
    and base: "list_all2 names_base (visit_order ?st) (map snd ids)"
    and dist: "distinct (visit_order ?st)"
    and suf: "\<forall>m<length ids. (\<exists>n<m. snd (ids ! n) = snd (ids ! m))
                \<longrightarrow> has_numeric_suffix (visit_order ?st ! m) (snd (ids ! m))"
    by blast
  have ids: "ids = [(1, ''V1''), (2, ''V1''), (3, ''V2'')]"
    using cells by (simp add: example_header_cells)
  have one: "(1::nat) < length ids"
    by (simp add: ids)
  have rep: "\<exists>n<(1::nat). snd (ids ! n) = snd (ids ! 1)"
    by (rule exI[of _ 0]) (simp add: ids)
  have "has_numeric_suffix (visit_order ?st ! 1) (snd (ids ! 1))"
    using suf one rep by blast
  then have a: "has_numeric_suffix ''V1_1'' ''V1''"
    by (simp add: ids)
  have b: "distinct [''V1'', ''V1_1'', ''V2'']"
    using dist by simp
  have c: "list_all2 names_base [''V1'', ''V1_1'', ''V2''] [''V1'', ''V1'', ''V2'']"
    using base by (simp add: ids)
  show ?thesis
    by (rule conjI[OF a conjI[OF b c]])
qed

subsection \<open>Extraction misses\<close>

text \<open>
  C4, as amended.  \<^verbatim>\<open>parse_soa\<close> raises \<^verbatim>\<open>ValueError\<close> when no schedule table is found
  and when no visit header row is found, and it returns its path only for a schedule that
  is not empty.  \<^verbatim>\<open>extract_forms\<close> has no such check: whenever the file is read and
  written, it returns the path, with the rows of the forms it extracted, however few.
\<close>

theorem extraction_miss_results:
  "(\<forall>finder data out config w.
      finder data config = Inr [] \<longrightarrow> parse_soa finder (Inr data) out config w = Inl ValueError)
   \<and> (\<forall>finder data out config w tables.
        finder data config = Inr tables \<and> detect_visit_header_row (all_rows_of tables) config = Inr None
        \<longrightarrow> parse_soa finder (Inr data) out config w = Inl ValueError)
   \<and> (\<forall>finder loaded out config w p.
        parse_soa finder loaded out config w = Inr p \<longrightarrow>
        (\<exists>data res. loaded = Inr data \<and> parse_protocol_schedule finder data config = Inr (Some res)
           \<and> fst res \<noteq> []))
   \<and> (\<forall>describe data out config.
        extract_forms describe (Inr data) out config None
          = Inr (out, extract_forms_with_corrections describe data config))"
proof (intro conjI allI impI)
  fix finder :: "node \<Rightarrow> soa_config \<Rightarrow> py_error + node list"
  fix data out config w
  assume "finder data config = Inr []"
  then show "parse_soa finder (Inr data) out config w = Inl ValueError"
    by (simp add: parse_soa_def parse_protocol_schedule_def)
next
  fix finder :: "node \<Rightarrow> soa_config \<Rightarrow> py_error + node list"
  fix data out config w tables
  assume "finder data config = Inr tables
          \<and> detect_visit_header_row (all_rows_of tables) config = Inr None"
  then show "parse_soa finder (Inr data) out config w = Inl ValueError"
    by (simp add: parse_soa_def parse_protocol_schedule_def)
next
  fix finder :: "node \<Rightarrow> soa_config \<Rightarrow> py_error + node list"
  fix loaded out config w p
  assume "parse_soa finder loaded out config w = Inr p"
  then show "\<exists>data res. loaded = Inr data
               \<and> parse_protocol_schedule finder data config = Inr (Some res) \<and> fst res \<noteq> []"
    by (auto simp: parse_soa_def split: sum.splits option.splits if_splits)
next
  fix describe data out config
  show "extract_forms describe (Inr data) out config None
          = Inr (out, extract_forms_with_corrections describe data config)"
    by (simp add: extract_forms_def)
qed

theorem extraction_miss_results_witness:
  "parse_soa (\<lambda>data config. Inr []) (Inr example_empty_document) ''schedule.csv'' default_soa_config None
     = Inl ValueError"
  using extraction_miss_results by simp

text \<open>
  The claim as stated fails on a document without forms: \<^verbatim>\<open>extract_forms\<close> returns the
  path and writes no row.
\<close>

theorem extract_forms_empty_counterexample:
  "extract_forms_with_corrections example_describe example_empty_document default_fe_config = []
   \<and> extract_forms example_describe (Inr example_empty_document) ''forms.csv'' default_fe_config None
       = Inr (''forms.csv'', [])"
  by code_simp

subsection \<open>The similarity of two strings\<close>

lemma flm_rows_empty_b: "fst (fold (flm_row a [] blo bhi) is s) = fst s"
  by (induction "is" arbitrary: s) (simp_all add: flm_row_def b2j_def)

lemma matches_empty_right: "matches a [] = 0"
proof -
  have "find_longest_match a [] 0 (length a) 0 0 = (0, 0, 0)"
    unfolding find_longest_match_def flm_rows_empty_b
    by (simp add: extend_back.simps extend_forward.simps)
  then show ?thesis
    unfolding matches_def by (subst matching_blocks_in.simps) simp
qed

lemma matches_empty_left: "matches [] b = 0"
proof -
  have "find_longest_match [] b 0 0 0 (length b) = (0, 0, 0)"
    unfolding find_longest_match_def
    by (simp add: extend_back.simps extend_forward.simps)
  then show ?thesis
    unfolding matches_def by (subst matching_blocks_in.simps) simp
qed

lemma tide_diet:
  "fuzzy_match exact ''tide'' ''diet'' True = 1 / 4 \<and> fuzzy_match exact ''diet'' ''tide'' True = 1 / 2"
  by code_simp

text \<open>
  C3, as amended.  \<^verbatim>\<open>fuzzy_match\<close> gives the same value in both orders when the two
  strings are equal up to case and case is ignored, and when one of them is empty; the
  value against the empty string is 0, or 1 when both are empty.  In general the value
  depends on the order of the arguments: \<^verbatim>\<open>tide\<close> against \<^verbatim>\<open>diet\<close> gives 0.25, and
  \<^verbatim>\<open>diet\<close> against \<^verbatim>\<open>tide\<close> gives 0.5.
\<close>

theorem fuzzy_match_symmetric_cases:
  "(\<forall>a b. lower a = lower b \<longrightarrow> fuzzy_match fl a b True = fuzzy_match fl b a True)
   \<and> (\<forall>a ci. fuzzy_match fl a [] ci = fuzzy_match fl [] a ci
            \<and> fuzzy_match fl a [] ci = (if a = [] then fl 1 else fl 0))
   \<and> fuzzy_match exact ''tide'' ''diet'' True = 1 / 4
   \<and> fuzzy_match exact ''diet'' ''tide'' True = 1 / 2"
proof (intro conjI allI impI)
  show "fuzzy_match exact ''tide'' ''diet'' True = 1 / 4"
    and "fuzzy_match exact ''diet'' ''tide'' True = 1 / 2"
    using tide_diet by simp_all
next
  fix a b :: string
  assume "lower a = lower b"
  then show "fuzzy_match fl a b True = fuzzy_match fl b a True"
    by (simp add: fuzzy_match_def)
next
  fix a :: string and ci :: bool
  show "fuzzy_match fl a [] ci = fuzzy_match fl [] a ci"
    by (simp add: fuzzy_match_def ratio_def matches_empty_left matches_empty_right lower_def)
  show "fuzzy_match fl a [] ci = (if a = [] then fl 1 else fl 0)"
    by (simp add: fuzzy_match_def ratio_def matches_empty_right lower_def)
qed

lemma lower_ecg: "lower ''ECG'' = lower ''ecg''"
  by code_simp

theorem fuzzy_match_symmetric_cases_witness:
  "fuzzy_match exact ''ECG'' ''ecg'' True = fuzzy_match exact ''ecg'' ''ECG'' True"
  using fuzzy_match_symmetric_cases[of exact] lower_ecg by blast

text \<open>The two orders of \<^verbatim>\<open>tide\<close> and \<^verbatim>\<open>diet\<close> give 0.25 and 0.5.\<close>

theorem fuzzy_match_asymmetric_counterexample:
  "fuzzy_match exact ''tide'' ''diet'' True \<noteq> fuzzy_match exact ''diet'' ''tide'' True"
  using tide_diet by simp

subsection \<open>The threshold of the fuzzy match\<close>

definition match_inv :: "(rat \<Rightarrow> 'f::linorder) \<Rightarrow> 'f \<Rightarrow> bool \<Rightarrow> string \<Rightarrow> string list \<Rightarrow> 'f match_state \<Rightarrow> bool" where
  "match_inv fl threshold ci l qs st =
     (case snd (snd st) of
        None \<Rightarrow> fst st = fl 0 \<and> (\<forall>q\<in>set qs. fuzzy_match fl q l ci < threshold)
      | Some p \<Rightarrow>
          fst (snd st) < length qs \<and> qs ! fst (snd st) = p \<and> fst st = fuzzy_match fl p l ci
          \<and> threshold \<le> fuzzy_match fl p l ci
          \<and> (\<forall>q\<in>set qs. fuzzy_match fl q l ci \<le> fuzzy_match fl p l ci)
          \<and> (\<forall>j<fst (snd st). fuzzy_match fl (qs ! j) l ci < fuzzy_match fl p l ci))"

lemma match_step_inv:
  assumes "fl 0 < threshold" and "match_inv fl threshold ci l qs st"
  shows "match_inv fl threshold ci l (qs @ [r]) (match_step fl threshold ci l (length qs, r) st)"
proof (cases "threshold \<le> fuzzy_match fl r l ci \<and> fst st < fuzzy_match fl r l ci")
  case True
  then have step: "match_step fl threshold ci l (length qs, r) st = (fuzzy_match fl r l ci, length qs, Some r)"
    by (simp add: match_step_def Let_def)
  have old: "\<forall>q\<in>set qs. fuzzy_match fl q l ci < fuzzy_match fl r l ci"
  proof (cases "snd (snd st)")
    case None
    then show ?thesis using assms(2) True by (auto simp: match_inv_def)
  next
    case (Some p)
    then show ?thesis using assms(2) True by (fastforce simp: match_inv_def)
  qed
  have "\<forall>j<length qs. fuzzy_match fl ((qs @ [r]) ! j) l ci < fuzzy_match fl r l ci"
    using old by (simp add: nth_append)
  then show ?thesis
    using True old unfolding step by (auto simp: match_inv_def less_imp_le)
next
  case False
  then have step: "match_step fl threshold ci l (length qs, r) st = st"
    by (auto simp: match_step_def Let_def)
  show ?thesis
  proof (cases "snd (snd st)")
    case None
    then have "fst st = fl 0" and old: "\<forall>q\<in>set qs. fuzzy_match fl q l ci < threshold"
      using assms(2) by (auto simp: match_inv_def)
    then have "fuzzy_match fl r l ci < threshold"
      using False assms(1) by auto
    then show ?thesis
      using None old \<open>fst st = fl 0\<close> unfolding step by (auto simp: match_inv_def)
  next
    case (Some p)
    then have inv: "fst (snd st) < length qs" "qs ! fst (snd st) = p" "fst st = fuzzy_match fl p l ci"
      "threshold \<le> fuzzy_match fl p l ci" "\<forall>q\<in>set qs. fuzzy_match fl q l ci \<le> fuzzy_match fl p l ci"
      "\<forall>j<fst (snd st). fuzzy_match fl (qs ! j) l ci < fuzzy_match fl p l ci"
      using assms(2) by (auto simp: match_inv_def)
    have r: "fuzzy_match fl r l ci \<le> fuzzy_match fl p l ci"
      using False inv(3,4) by auto
    have "\<forall>j<fst (snd st). fuzzy_match fl ((qs @ [r]) ! j) l ci < fuzzy_match fl p l ci"
      using inv(1,6) by (simp add: nth_append)
    then show ?thesis
      using Some inv r unfolding step by (auto simp: match_inv_def nth_append)
  qed
qed

lemma best_procedure_inv:
  assumes "fl 0 < threshold"
  shows "match_inv fl threshold ci l procs (best_procedure fl threshold ci procs l)"
proof (induction procs rule: rev_induct)
  case Nil
  then show ?case by (simp add: best_procedure_def match_inv_def)
next
  case (snoc r qs)
  have "best_procedure fl threshold ci (qs @ [r]) l
          = match_step fl threshold ci l (length qs, r) (best_procedure fl threshold ci qs l)"
    by (simp add: best_procedure_def enumerate_append_eq)
  then show ?case
    using match_step_inv[OF assms snoc] by simp
qed

text \<open>
  C2, as amended.  Let the threshold be positive and no procedure name empty.  A form
  label whose similarity to every procedure is below the threshold is unmapped.  A label
  whose similarity to some procedure reaches the threshold (equality included) is mapped,
  to the first procedure of the greatest similarity.
\<close>

theorem threshold_boundary:
  assumes "fl 0 < threshold" and "[] \<notin> set proc_order"
  shows "((\<forall>p\<in>set proc_order. fuzzy_match fl p form_label ci < threshold)
            \<longrightarrow> matched_procedure fl threshold ci proc_order form_label = None)
       \<and> ((\<exists>p\<in>set proc_order. threshold \<le> fuzzy_match fl p form_label ci)
            \<longrightarrow> (\<exists>i<length proc_order.
                   matched_procedure fl threshold ci proc_order form_label = Some (i, proc_order ! i)
                   \<and> threshold \<le> fuzzy_match fl (proc_order ! i) form_label ci
                   \<and> (\<forall>q\<in>set proc_order. fuzzy_match fl q form_label ci
                                             \<le> fuzzy_match fl (proc_order ! i) form_label ci)
                   \<and> (\<forall>j<i. fuzzy_match fl (proc_order ! j) form_label ci
                                < fuzzy_match fl (proc_order ! i) form_label ci)))"
proof -
  let ?st = "best_procedure fl threshold ci proc_order form_label"
  have inv: "match_inv fl threshold ci form_label proc_order ?st"
    using assms(1) by (rule best_procedure_inv)
  show ?thesis
  proof (cases "snd (snd ?st)")
    case None
    then have low: "\<forall>q\<in>set proc_order. fuzzy_match fl q form_label ci < threshold"
      using inv by (simp add: match_inv_def)
    have "matched_procedure fl threshold ci proc_order form_label = None"
      using None by (simp add: matched_procedure_def truthy_def)
    then show ?thesis using low by fastforce
  next
    case (Some p)
    then have i: "fst (snd ?st) < length proc_order" "proc_order ! fst (snd ?st) = p"
      and rest: "threshold \<le> fuzzy_match fl p form_label ci"
        "\<forall>q\<in>set proc_order. fuzzy_match fl q form_label ci \<le> fuzzy_match fl p form_label ci"
        "\<forall>j<fst (snd ?st). fuzzy_match fl (proc_order ! j) form_label ci < fuzzy_match fl p form_label ci"
      using inv by (auto simp: match_inv_def)
    have "p \<in> set proc_order" using i by auto
    then have "p \<noteq> []" using assms(2) by auto
    then have m: "matched_procedure fl threshold ci proc_order form_label = Some (fst (snd ?st), p)"
      using Some by (simp add: matched_procedure_def truthy_def the_str_def)
    have high: "\<not> (\<forall>q\<in>set proc_order. fuzzy_match fl q form_label ci < threshold)"
      using rest(1) \<open>p \<in> set proc_order\<close> by (blast dest: leD)
    have "\<exists>i<length proc_order.
            matched_procedure fl threshold ci proc_order form_label = Some (i, proc_order ! i)
            \<and> threshold \<le> fuzzy_match fl (proc_order ! i) form_label ci
            \<and> (\<forall>q\<in>set proc_order. fuzzy_match fl q form_label ci
                                      \<le> fuzzy_match fl (proc_order ! i) form_label ci)
            \<and> (\<forall>j<i. fuzzy_match fl (proc_order ! j) form_label ci
                         < fuzzy_match fl (proc_order ! i) form_label ci)"
      using i m rest by (intro exI[of _ "fst (snd ?st)"]) simp
    then show ?thesis using high by blast
  qed
qed

lemma diet_tide_scores:
  "fuzzy_match exact ''diet'' ''tide'' True = 1 / 2 \<and> fuzzy_match exact ''tide'' ''diet'' True = 1 / 4"
  by code_simp

text \<open>
  The label \<^verbatim>\<open>tide\<close> has similarity 0.5 to the procedure \<^verbatim>\<open>diet\<close>, which is the
  threshold: it is mapped.  The label \<^verbatim>\<open>diet\<close> has similarity 0.25 to the procedure
  \<^verbatim>\<open>tide\<close>: it is unmapped.
\<close>

theorem threshold_boundary_witness:
  "matched_procedure exact (1 / 2) True [''diet''] ''tide'' = Some (0, ''diet'')
   \<and> matched_procedure exact (1 / 2) True [''tide''] ''diet'' = None"
proof -
  have pos: "exact 0 < 1 / 2" by (simp add: exact_def)
  have a: "[] \<notin> set [''diet'']" and b: "[] \<notin> set [''tide'']" by simp_all
  from threshold_boundary[where fl = exact and threshold = "1 / 2" and proc_order = "[''diet'']"
      and form_label = "''tide''" and ci = True, OF pos a]
  have "matched_procedure exact (1 / 2) True [''diet''] ''tide'' = Some (0, ''diet'')"
    by (simp add: diet_tide_scores)
  moreover from threshold_boundary[where fl = exact and threshold = "1 / 2" and proc_order = "[''tide'']"
      and form_label = "''diet''" and ci = True, OF pos b]
  have "matched_procedure exact (1 / 2) True [''tide''] ''diet'' = None"
    by (simp add: diet_tide_scores)
  ultimately show ?thesis by (rule conjI)
qed

text \<open>
  The claim as stated fails at the threshold 0: the similarity of \<^verbatim>\<open>abc\<close> and
  \<^verbatim>\<open>xyz\<close> is 0, equal to the threshold, and the label is unmapped.
\<close>

theorem threshold_zero_counterexample:
  "fuzzy_match exact ''abc'' ''xyz'' True = 0
   \<and> matched_procedure exact 0 True [''abc''] ''xyz'' = None"
  by code_simp

end
